theory Spec2Isabelle
  imports Complex_Main
begin

section \<open>Exceptions\<close>

text \<open>
  The exceptions the sources throw, one constructor per C++ class: \<open>std::invalid_argument\<close>
  and \<open>std::out_of_range\<close> (both logic errors), \<open>std::range_error\<close>, a plain
  \<open>std::runtime_error\<close>, \<open>std::system_error\<close>, \<open>std::bad_alloc\<close>, and a failed
  \<open>assert\<close>; \<open>Undefined_behaviour\<close> stands for an operation the language leaves
  undefined. A function that can throw returns \<open>exn + 'a\<close>, with \<open>Inl\<close> the exception.
\<close>

datatype exn = Invalid_argument | Range_error | Out_of_range | Runtime_error
  | System_error | Bad_alloc | Assertion_failed | Undefined_behaviour

section \<open>CPUSet (CPUSet.hpp, CPUSet.cpp)\<close>

text \<open>
  A \<open>CPUSet\<close> wraps a \<open>cpu_set_t\<close> allocated for \<open>mMaxCPUs\<close> CPUs. Every member that
  touches a single bit asserts \<open>0 \<le> n < mMaxCPUs\<close>, so the model keeps exactly the bits
  \<open>0 .. mMaxCPUs - 1\<close>: the set is a list of booleans and \<open>mMaxCPUs\<close> is its length.
  The binary operators assert that both operands have the same size.
\<close>

type_synonym CPUSet = "bool list"

definition max_cpus :: "CPUSet \<Rightarrow> int" where
  "max_cpus s = int (length s)"

text \<open>
  The default constructor \<open>CPUSet()\<close> allocates a set for \<open>getMaxCPUs() = mx\<close> CPUs and
  clears it; \<open>zero()\<close> clears an existing set.
\<close>

definition CPUSet_new :: "nat \<Rightarrow> CPUSet" where
  "CPUSet_new mx = replicate mx False"

definition zero :: "CPUSet \<Rightarrow> CPUSet" where
  "zero s = replicate (length s) False"

definition set_cpu :: "CPUSet \<Rightarrow> int \<Rightarrow> exn + CPUSet" where
  "set_cpu s n =
     (if 0 \<le> n \<and> n < max_cpus s then Inr (s[nat n := True]) else Inl Assertion_failed)"

definition clr :: "CPUSet \<Rightarrow> int \<Rightarrow> exn + CPUSet" where
  "clr s n =
     (if 0 \<le> n \<and> n < max_cpus s then Inr (s[nat n := False]) else Inl Assertion_failed)"

definition is_set :: "CPUSet \<Rightarrow> int \<Rightarrow> exn + bool" where
  "is_set s n =
     (if 0 \<le> n \<and> n < max_cpus s then Inr (s ! nat n) else Inl Assertion_failed)"

definition count :: "CPUSet \<Rightarrow> int" where
  "count s = int (length (filter (\<lambda>b. b) s))"

definition empty :: "CPUSet \<Rightarrow> bool" where
  "empty s = (0 = count s)"

text \<open>The CPU numbers a set holds; used to state properties, not by the program.\<close>

definition cpus :: "CPUSet \<Rightarrow> int set" where
  "cpus s = {n. 0 \<le> n \<and> n < max_cpus s \<and> s ! nat n}"

text \<open>\<open>operator&\<close>, \<open>operator|\<close>, \<open>operator^\<close> and \<open>operator==\<close>.\<close>

definition cpu_and :: "CPUSet \<Rightarrow> CPUSet \<Rightarrow> exn + CPUSet" where
  "cpu_and lhs rhs =
     (if length lhs = length rhs then Inr (map2 (\<lambda>a b. a \<and> b) lhs rhs)
      else Inl Assertion_failed)"

definition cpu_or :: "CPUSet \<Rightarrow> CPUSet \<Rightarrow> exn + CPUSet" where
  "cpu_or lhs rhs =
     (if length lhs = length rhs then Inr (map2 (\<lambda>a b. a \<or> b) lhs rhs)
      else Inl Assertion_failed)"

definition cpu_xor :: "CPUSet \<Rightarrow> CPUSet \<Rightarrow> exn + CPUSet" where
  "cpu_xor lhs rhs =
     (if length lhs = length rhs then Inr (map2 (\<lambda>a b. a \<noteq> b) lhs rhs)
      else Inl Assertion_failed)"

definition cpu_equal :: "CPUSet \<Rightarrow> CPUSet \<Rightarrow> exn + bool" where
  "cpu_equal lhs rhs =
     (if length lhs = length rhs then Inr (lhs = rhs) else Inl Assertion_failed)"

text \<open>
  \<open>first()\<close> scans upwards from 0 and \<open>last()\<close> downwards from \<open>mMaxCPUs - 1\<close>; both
  return \<open>-1\<close> when the scan runs out.
\<close>

function first_loop :: "CPUSet \<Rightarrow> int \<Rightarrow> exn + int" where
  "first_loop s i =
     (if i < max_cpus s then
        (case is_set s i of
           Inl e \<Rightarrow> Inl e
         | Inr b \<Rightarrow> if b then Inr i else first_loop s (i + 1))
      else Inr (- 1))"
  by pat_completeness auto
termination
  by (relation "measure (\<lambda>(s, i). nat (max_cpus s - i))") auto

definition first :: "CPUSet \<Rightarrow> exn + int" where
  "first s = first_loop s 0"

function last_loop :: "CPUSet \<Rightarrow> int \<Rightarrow> exn + int" where
  "last_loop s i =
     (if i \<ge> 0 then
        (case is_set s i of
           Inl e \<Rightarrow> Inl e
         | Inr b \<Rightarrow> if b then Inr i else last_loop s (i - 1))
      else Inr (- 1))"
  by pat_completeness auto
termination
  by (relation "measure (\<lambda>(s, i). nat (i + 1))") auto

definition last_cpu :: "CPUSet \<Rightarrow> exn + int" where
  "last_cpu s = last_loop s (max_cpus s - 1)"

declare first_loop.simps [simp del] last_loop.simps [simp del]


section \<open>Characters and numbers of the C library\<close>

text \<open>
  A C string is modelled by the list of its characters; the terminating NUL is what
  \<open>peek\<close> reads at the end of the list. \<open>isspace\<close> and \<open>isdigit\<close> are those of the C
  locale.
\<close>

definition NUL :: char where
  "NUL = CHR 0x00"

definition peek :: "string \<Rightarrow> char" where
  "peek s = (case s of [] \<Rightarrow> NUL | c # _ \<Rightarrow> c)"

definition isspace :: "char \<Rightarrow> bool" where
  "isspace c = (c = CHR '' '' \<or> c = CHR 0x09 \<or> c = CHR 0x0A \<or> c = CHR 0x0B \<or>
     c = CHR 0x0C \<or> c = CHR 0x0D)"

definition isdigit :: "char \<Rightarrow> bool" where
  "isdigit c = (48 \<le> (of_char c :: int) \<and> (of_char c :: int) \<le> 57)"

definition digit_val :: "char \<Rightarrow> int" where
  "digit_val c = of_char c - 48"

definition digit_char :: "int \<Rightarrow> char" where
  "digit_char d = char_of (48 + d)"

definition dec_val :: "string \<Rightarrow> int" where
  "dec_val ds = foldl (\<lambda>a c. 10 * a + digit_val c) 0 ds"

text \<open>\<open>std::to_string(int)\<close>: the decimal digits, most significant first, after a sign.\<close>

function nat_digits :: "int \<Rightarrow> string" where
  "nat_digits n =
     (if n < 10 then [digit_char n] else nat_digits (n div 10) @ [digit_char (n mod 10)])"
  by pat_completeness auto
termination
  by (relation "measure nat") auto

declare nat_digits.simps [simp del]

definition to_string_int :: "int \<Rightarrow> string" where
  "to_string_int n = (if n < 0 then CHR ''-'' # nat_digits (- n) else nat_digits n)"

text \<open>
  \<open>strtoul(nptr, &end, 10)\<close> with a 64-bit \<open>unsigned long\<close>: white space is skipped, one
  sign is accepted, then the longest run of digits is converted. Without a digit nothing
  is converted and \<open>end\<close> is \<open>nptr\<close>. A value that does not fit gives \<open>ULONG_MAX\<close>; after a
  minus sign the value is negated in \<open>unsigned long\<close>, that is modulo \<open>2 ^ 64\<close>. The result
  is the value and the rest of the string at \<open>end\<close>.
\<close>

definition ULONG_MAX :: int where
  "ULONG_MAX = 2 ^ 64 - 1"

definition strtoul :: "string \<Rightarrow> int \<times> string" where
  "strtoul nptr =
     (let s = dropWhile isspace nptr;
          neg = (peek s = CHR ''-'');
          s1 = (if peek s = CHR ''-'' \<or> peek s = CHR ''+'' then tl s else s);
          ds = takeWhile isdigit s1;
          endp = dropWhile isdigit s1
      in if ds = [] then (0, nptr)
         else if dec_val ds > ULONG_MAX then (ULONG_MAX, endp)
         else if neg then ((- dec_val ds) mod 2 ^ 64, endp)
         else (dec_val ds, endp))"

section \<open>CPUSet::parse (CPUSet.cpp)\<close>

text \<open>The inner loop \<open>while (start <= cpu) this->set(start++)\<close>.\<close>

function set_range :: "CPUSet \<Rightarrow> int \<Rightarrow> int \<Rightarrow> exn + CPUSet" where
  "set_range s start cpu =
     (if start \<le> cpu then
        (case set_cpu s start of
           Inl e \<Rightarrow> Inl e
         | Inr s' \<Rightarrow> set_range s' (start + 1) cpu)
      else Inr s)"
  by pat_completeness auto
termination
  by (relation "measure (\<lambda>(s, start, cpu). nat (cpu + 1 - start))") auto

declare set_range.simps [simp del]

text \<open>
  The \<open>switch (*end)\<close> of \<open>parse\<close>, for the number \<open>cpu\<close> just read and the character \<open>c\<close>
  after it: the new set and the new value of \<open>start\<close>.
\<close>

definition parse_item :: "CPUSet \<Rightarrow> int \<Rightarrow> int \<Rightarrow> char \<Rightarrow> exn + CPUSet \<times> int" where
  "parse_item s start cpu c =
     (if c = NUL \<or> c = CHR '','' then
        (if - 1 = start then
           (case set_cpu s cpu of Inl e \<Rightarrow> Inl e | Inr s' \<Rightarrow> Inr (s', start))
         else if start > cpu then Inl Out_of_range
         else
           (case set_range s start cpu of Inl e \<Rightarrow> Inl e | Inr s' \<Rightarrow> Inr (s', - 1)))
      else if c = CHR ''-'' then
        (if - 1 \<noteq> start then Inl Invalid_argument else Inr (s, cpu))
      else Inl Invalid_argument)"

lemma strtoul_length: "length (snd (strtoul pos)) \<le> length pos"
proof -
  have a: "length (dropWhile isdigit (tl (dropWhile isspace pos))) \<le> length pos"
    by (metis (no_types) length_dropWhile_le length_tl le_trans diff_le_self)
  have b: "length (dropWhile isdigit (dropWhile isspace pos)) \<le> length pos"
    by (metis (no_types) length_dropWhile_le le_trans)
  show ?thesis
    using a b by (simp add: strtoul_def Let_def)
qed

text \<open>
  The \<open>while (true)\<close> loop of \<open>parse\<close>. \<open>str\<close> is the whole argument and \<open>pos\<close> the rest
  still to read; both are positions in the same string, so the pointer comparisons
  \<open>end == pos\<close> and \<open>end == str\<close> are comparisons of the rests.
\<close>

function parse_loop :: "string \<Rightarrow> CPUSet \<Rightarrow> int \<Rightarrow> string \<Rightarrow> exn + CPUSet" where
  "parse_loop str s start pos =
     (let n = fst (strtoul pos); endp = snd (strtoul pos) in
      if endp = pos then
        (if NUL = peek endp \<and> endp = str then Inr s
         else if - 1 = start then Inl Invalid_argument
         else Inl Invalid_argument)
      else if n \<ge> max_cpus s then Inl Range_error
      else
        (case parse_item s start n (peek endp) of
           Inl e \<Rightarrow> Inl e
         | Inr (s', start') \<Rightarrow>
             if NUL = peek endp then Inr s'
             else parse_loop str s' start' (tl endp)))"
  by pat_completeness auto
termination
proof (relation "measure (\<lambda>(str, s, start, pos). length pos)", goal_cases)
  case 1
  show ?case by simp
next
  case (2 str s start pos n endp x2 s' start')
  from 2 have "endp \<noteq> []"
    by (auto simp: peek_def)
  then have "length (tl endp) < length endp"
    by simp
  also have "length endp \<le> length pos"
    using 2 strtoul_length [of pos] by simp
  finally show ?case by simp
qed

declare parse_loop.simps [simp del]

definition parse :: "CPUSet \<Rightarrow> string \<Rightarrow> exn + CPUSet" where
  "parse this str = parse_loop str (zero this) (- 1) str"


section \<open>CPUSet::to_string (CPUSet.cpp)\<close>

text \<open>
  The inner loop \<open>for (n += 1; n < mMaxCPUs; ++n) if (!is_set(n)) break;\<close>, entered with
  \<open>n\<close> already incremented: it returns the first index from \<open>n\<close> on that is not set, or
  \<open>mMaxCPUs\<close>.
\<close>

function skip_set :: "CPUSet \<Rightarrow> int \<Rightarrow> exn + int" where
  "skip_set s n =
     (if n < max_cpus s then
        (case is_set s n of
           Inl e \<Rightarrow> Inl e
         | Inr b \<Rightarrow> if \<not> b then Inr n else skip_set s (n + 1))
      else Inr n)"
  by pat_completeness auto
termination
  by (relation "measure (\<lambda>(s, n). nat (max_cpus s - n))") auto

declare skip_set.simps [simp del]

lemma skip_set_ge: "skip_set s n = Inr n' \<Longrightarrow> n \<le> n'"
proof (induction s n rule: skip_set.induct)
  case (1 s n)
  show ?case
  proof (cases "n < max_cpus s")
    case True
    show ?thesis
    proof (cases "is_set s n")
      case (Inl e)
      with True "1.prems" show ?thesis
        by (simp add: skip_set.simps [of s n])
    next
      case (Inr b)
      show ?thesis
      proof (cases b)
        case True
        with Inr \<open>n < max_cpus s\<close> "1.prems" have "skip_set s (n + 1) = Inr n'"
          by (simp add: skip_set.simps [of s n])
        with "1.IH" [OF \<open>n < max_cpus s\<close> Inr] True have "n + 1 \<le> n'"
          by simp
        then show ?thesis by simp
      next
        case False
        with Inr \<open>n < max_cpus s\<close> "1.prems" show ?thesis
          by (simp add: skip_set.simps [of s n])
      qed
    qed
  next
    case False
    with "1.prems" show ?thesis
      by (simp add: skip_set.simps [of s n])
  qed
qed

text \<open>
  The outer loop of \<open>to_string\<close>, with the loop variable \<open>n\<close>, the flag \<open>first\<close> (here \<open>first_item\<close>) and the
  string built so far. After a run of set bits the loop variable stands on the index
  that ended the run and the loop's \<open>++n\<close> steps over it.
\<close>

function to_string_loop :: "CPUSet \<Rightarrow> int \<Rightarrow> bool \<Rightarrow> string \<Rightarrow> exn + string" where
  "to_string_loop s n first_item result =
     (if n < max_cpus s then
        (case is_set s n of
           Inl e \<Rightarrow> Inl e
         | Inr b \<Rightarrow>
             if b then
               (case skip_set s (n + 1) of
                  Inl e \<Rightarrow> Inl e
                | Inr n' \<Rightarrow>
                    to_string_loop s (n' + 1) False
                      ((if first_item then result else result @ '','') @ to_string_int n @
                       (if n \<noteq> n' - 1 then ''-'' @ to_string_int (n' - 1) else [])))
             else to_string_loop s (n + 1) first_item result)
      else Inr result)"
  by pat_completeness auto
termination
proof (relation "measure (\<lambda>(s, n, first_item, result). nat (max_cpus s - n))", goal_cases)
  case 1
  show ?case by simp
next
  case (2 s n first_item result b n')
  from 2 have "n + 1 \<le> n'"
    by (auto dest: skip_set_ge)
  with 2 show ?case by simp
next
  case (3 s n first_item result b)
  then show ?case by simp
qed

declare to_string_loop.simps [simp del]

definition to_string :: "CPUSet \<Rightarrow> exn + string" where
  "to_string s = to_string_loop s 0 True []"


section \<open>The list syntax\<close>

text \<open>
  The list form the specification describes: items separated by commas, an item being a
  number or a range \<open>a-b\<close>. The first grammar is the strict one (numbers are decimal
  numerals); the second is the one \<open>parse\<close> reads, where a number is whatever \<open>strtoul\<close>
  converts completely (a lexeme: optional white space and sign before the digits).
\<close>

datatype item = Single string | Range string string

fun item_string :: "item \<Rightarrow> string" where
  "item_string (Single a) = a"
| "item_string (Range a b) = a @ ''-'' @ b"

fun list_string :: "item list \<Rightarrow> string" where
  "list_string [] = []"
| "list_string [x] = item_string x"
| "list_string (x # y # ys) = item_string x @ '','' @ list_string (y # ys)"

definition decimal :: "string \<Rightarrow> bool" where
  "decimal ds = (ds \<noteq> [] \<and> list_all isdigit ds)"

fun valid_item :: "int \<Rightarrow> item \<Rightarrow> bool" where
  "valid_item mx (Single a) = (decimal a \<and> dec_val a < mx)"
| "valid_item mx (Range a b) =
     (decimal a \<and> decimal b \<and> dec_val a \<le> dec_val b \<and> dec_val b < mx)"

fun valid_cpus :: "item \<Rightarrow> int set" where
  "valid_cpus (Single a) = {dec_val a}"
| "valid_cpus (Range a b) = {dec_val a .. dec_val b}"

definition lexeme :: "string \<Rightarrow> bool" where
  "lexeme l = (l \<noteq> [] \<and> snd (strtoul l) = [])"

definition num_val :: "string \<Rightarrow> int" where
  "num_val l = fst (strtoul l)"

fun accepted_item :: "int \<Rightarrow> item \<Rightarrow> bool" where
  "accepted_item mx (Single a) = (lexeme a \<and> num_val a < mx)"
| "accepted_item mx (Range a b) =
     (lexeme a \<and> lexeme b \<and> num_val a \<le> num_val b \<and> num_val b < mx)"

fun item_cpus :: "item \<Rightarrow> int set" where
  "item_cpus (Single a) = {num_val a}"
| "item_cpus (Range a b) = {num_val a .. num_val b}"

text \<open>
  The parts of a number as \<open>strtoul\<close> reads it (white space, sign, digits) and its value;
  the text that follows the first item of a list; and the items written with plain
  decimal numbers, valid or not.
\<close>

definition lex_parts :: "string \<Rightarrow> string \<Rightarrow> string \<Rightarrow> bool" where
  "lex_parts ws sg ds =
     (list_all isspace ws \<and> (sg = [] \<or> sg = ''-'' \<or> sg = ''+'') \<and> ds \<noteq> [] \<and>
      list_all isdigit ds)"

definition lex_value :: "string \<Rightarrow> string \<Rightarrow> int" where
  "lex_value sg ds =
     (if dec_val ds > ULONG_MAX then ULONG_MAX
      else if sg = ''-'' then (- dec_val ds) mod 2 ^ 64
      else dec_val ds)"

definition and_more :: "item list \<Rightarrow> string" where
  "and_more its = (if its = [] then [] else '','' @ list_string its)"



section \<open>The filesystem (sysfs.hpp, sysfs.cpp)\<close>

text \<open>
  The program talks to the kernel through files of the cgroup and cpufreq trees. The
  model keeps, per path, the text the file currently shows, the writes made so far in
  their order, the directories with their entries, the number \<open>getMaxCPUs()\<close> returns,
  and which system calls fail. The file
  \<open>cpuset.cpus.partition\<close> shows what the kernel decides after a partition type was
  written; \<open>partition_reply\<close> is that decision.

  A \<open>std::ofstream\<close> that is given the empty string writes nothing, and opening a kernel
  attribute for writing does not change it: such a write leaves the file as it was. The
  destructor of \<open>CPUCGroup\<close> notes the consequence (``we cannot write empty sets to files'').
\<close>

datatype syscall = Open string | Flock string | Read string | Write string
  | Mkdir string | Rmdir string | Sigprocmask | Clone | Waitpid
  | Inotify_init | Inotify_add_watch string | Inotify_read

datatype errno = EEXIST | ENOENT | EOTHER

record world =
  getMaxCPUs :: nat
  files :: "string \<Rightarrow> string"
  written :: "(string \<times> string) list"
  dirs :: "string set"
  entries :: "string \<Rightarrow> string list"
  exists_path :: "string \<Rightarrow> bool"
  fails :: "syscall \<Rightarrow> bool"
  partition_reply :: "string \<Rightarrow> string"

text \<open>\<open>operator>>(std::istream&, std::string&)\<close> on a fresh stream: the first word.\<close>

definition first_word :: "string \<Rightarrow> string" where
  "first_word s = takeWhile (\<lambda>c. \<not> isspace c) (dropWhile isspace s)"


definition sysfs_read :: "string \<Rightarrow> world \<Rightarrow> exn + string" where
  "sysfs_read path w =
     (if fails w (Read path) then Inl System_error else Inr (first_word (files w path)))"

definition write_file :: "string \<Rightarrow> string \<Rightarrow> world \<Rightarrow> world" where
  "write_file path val w =
     (if val = [] then w
      else w\<lparr>files := (files w)(path := val), written := written w @ [(path, val)]\<rparr>)"

definition sysfs_write :: "string \<Rightarrow> string \<Rightarrow> world \<Rightarrow> exn + world" where
  "sysfs_write path val w =
     (if fails w (Write path) then Inl System_error else Inr (write_file path val w))"

text \<open>\<open>sysfs_write\<close> of a \<open>CPUSet\<close>: \<open>operator<<\<close> writes \<open>to_string()\<close>.\<close>

definition sysfs_write_set :: "string \<Rightarrow> CPUSet \<Rightarrow> world \<Rightarrow> exn + world" where
  "sysfs_write_set path s w =
     (case to_string s of Inl e \<Rightarrow> Inl e | Inr str \<Rightarrow> sysfs_write path str w)"

text \<open>
  \<open>sysfs_change\<close>: the old word is read and the new value is written through the same
  \<open>std::fstream\<close>. When the read reaches the end of the file the stream is no longer good,
  the write is refused and the function throws; a kernel attribute ends with a line feed,
  so the read of its first word stops before the end.
\<close>

definition sysfs_change :: "string \<Rightarrow> string \<Rightarrow> world \<Rightarrow> exn + string \<times> world" where
  "sysfs_change path val w =
     (if fails w (Read path) then Inl System_error
      else if dropWhile (\<lambda>c. \<not> isspace c) (dropWhile isspace (files w path)) = []
        then Inl System_error
      else if fails w (Write path) then Inl System_error
      else Inr (first_word (files w path), write_file path val w))"


definition rmdir :: "string \<Rightarrow> world \<Rightarrow> errno option \<times> world" where
  "rmdir path w =
     (if path \<notin> dirs w then (Some ENOENT, w)
      else if fails w (Rmdir path) then (Some EOTHER, w)
      else (None, w\<lparr>dirs := dirs w - {path}\<rparr>))"

text \<open>The constructor \<open>CPUSet(std::string)\<close>: a fresh set, then \<open>parse\<close>.\<close>

definition CPUSet_of_string :: "nat \<Rightarrow> string \<Rightarrow> exn + CPUSet" where
  "CPUSet_of_string mx str = parse (CPUSet_new mx) str"

section \<open>CPUCGroup (CPUCGroup.hpp, CPUCGroup.cpp)\<close>

definition CGROUP_ROOT :: string where
  "CGROUP_ROOT = ''/sys/fs/cgroup''"

definition RUNEXCL_SLICE :: string where
  "RUNEXCL_SLICE = CGROUP_ROOT @ ''/runexcl.slice''"

definition cpuset_cpus_exclusive :: string where
  "cpuset_cpus_exclusive = RUNEXCL_SLICE @ ''/cpuset.cpus.exclusive''"

definition cpuset_cpus_effective :: string where
  "cpuset_cpus_effective = RUNEXCL_SLICE @ ''/cpuset.cpus.effective''"

record CPUCGroup =
  mCPUSet :: CPUSet
  mPath :: string

text \<open>The constructor of \<open>FileLock\<close>: \<open>open\<close>, then \<open>flock\<close> until it is not interrupted.\<close>

definition FileLock :: "string \<Rightarrow> world \<Rightarrow> exn + unit" where
  "FileLock path w =
     (if fails w (Open path) then Inl System_error
      else if fails w (Flock path) then Inl System_error
      else Inr ())"

definition remove :: "string \<Rightarrow> world \<Rightarrow> exn + world" where
  "remove path w = (case rmdir path w of (None, w') \<Rightarrow> Inr w' | (Some e, w') \<Rightarrow> Inl System_error)"


text \<open>
  The first part of the constructor, up to the write of the ledger
  \<open>runexcl.slice/cpuset.cpus.exclusive\<close>: the reservation of the requested CPUs.
\<close>

definition reserve :: "CPUSet \<Rightarrow> world \<Rightarrow> (exn + unit) \<times> world" where
  "reserve s w =
     (case FileLock cpuset_cpus_exclusive w of Inl e \<Rightarrow> (Inl e, w) | Inr _ \<Rightarrow>
      case sysfs_read cpuset_cpus_exclusive w of Inl e \<Rightarrow> (Inl e, w) | Inr str \<Rightarrow>
      case CPUSet_of_string (getMaxCPUs w) str of Inl e \<Rightarrow> (Inl e, w) | Inr exclusive \<Rightarrow>
      case sysfs_read cpuset_cpus_effective w of Inl e \<Rightarrow> (Inl e, w) | Inr str' \<Rightarrow>
      case CPUSet_of_string (getMaxCPUs w) str' of Inl e \<Rightarrow> (Inl e, w) | Inr available \<Rightarrow>
      case cpu_and s available of Inl e \<Rightarrow> (Inl e, w) | Inr both \<Rightarrow>
      case cpu_equal both s of Inl e \<Rightarrow> (Inl e, w) | Inr eq \<Rightarrow>
      if \<not> eq then (Inl Runtime_error, w)
      else
        case cpu_or exclusive s of Inl e \<Rightarrow> (Inl e, w) | Inr exclusive' \<Rightarrow>
        case sysfs_write_set cpuset_cpus_exclusive exclusive' w of
          Inl e \<Rightarrow> (Inl e, w)
        | Inr w' \<Rightarrow> (Inr (), w'))"



text \<open>
  The second part of the destructor: the CPUs of the group are taken out of the ledger,
  computed as \<open>(exclusive ^ mCPUSet) & exclusive\<close>.
\<close>

definition release :: "CPUSet \<Rightarrow> world \<Rightarrow> (exn + unit) \<times> world" where
  "release s w =
     (case FileLock cpuset_cpus_exclusive w of Inl e \<Rightarrow> (Inl e, w) | Inr _ \<Rightarrow>
      case sysfs_read cpuset_cpus_exclusive w of Inl e \<Rightarrow> (Inl e, w) | Inr str \<Rightarrow>
      case CPUSet_of_string (getMaxCPUs w) str of Inl e \<Rightarrow> (Inl e, w) | Inr exclusive \<Rightarrow>
      case cpu_xor exclusive s of Inl e \<Rightarrow> (Inl e, w) | Inr x \<Rightarrow>
      case cpu_and x exclusive of Inl e \<Rightarrow> (Inl e, w) | Inr exclusive' \<Rightarrow>
      case sysfs_write_set cpuset_cpus_exclusive exclusive' w of
        Inl e \<Rightarrow> (Inl e, w)
      | Inr w' \<Rightarrow> (Inr (), w'))"

text \<open>
  The destructor \<open>~CPUCGroup()\<close>: the directory is removed, then the reservation is
  released. Every \<open>std::exception\<close> is caught and reported, so the destructor returns
  normally; only a failed assertion ends the program (\<open>Inl\<close>).
\<close>

definition CPUCGroup_delete :: "CPUCGroup \<Rightarrow> world \<Rightarrow> (exn + unit) \<times> world" where
  "CPUCGroup_delete g w =
     (case remove (mPath g) w of
        Inl e \<Rightarrow> (if e = Assertion_failed then Inl e else Inr (), w)
      | Inr w1 \<Rightarrow>
          (case release (mCPUSet g) w1 of
             (Inl e, w2) \<Rightarrow> (if e = Assertion_failed then Inl e else Inr (), w2)
           | (Inr _, w2) \<Rightarrow> (Inr (), w2)))"


text \<open>The set the ledger file holds, as the constructor and the destructor read it.\<close>

definition ledger :: "world \<Rightarrow> exn + CPUSet" where
  "ledger w =
     (case sysfs_read cpuset_cpus_exclusive w of
        Inl e \<Rightarrow> Inl e
      | Inr str \<Rightarrow> CPUSet_of_string (getMaxCPUs w) str)"

definition effective :: "world \<Rightarrow> exn + CPUSet" where
  "effective w =
     (case sysfs_read cpuset_cpus_effective w of
        Inl e \<Rightarrow> Inl e
      | Inr str \<Rightarrow> CPUSet_of_string (getMaxCPUs w) str)"

text \<open>No system call on the ledger or on the file of the effective CPUs fails.\<close>

definition slice_io_ok :: "world \<Rightarrow> bool" where
  "slice_io_ok w =
     (\<not> fails w (Open cpuset_cpus_exclusive) \<and> \<not> fails w (Flock cpuset_cpus_exclusive) \<and>
      \<not> fails w (Read cpuset_cpus_exclusive) \<and> \<not> fails w (Write cpuset_cpus_exclusive) \<and>
      \<not> fails w (Read cpuset_cpus_effective))"


subsection \<open>A filesystem to run the model on\<close>

text \<open>
  A slice whose ledger and effective CPUs show the given texts and which holds the
  groups \<open>runexcl.<name>\<close> for the given names, on a machine where \<open>getMaxCPUs()\<close> is
  \<open>mx\<close>, no system call fails and the kernel accepts every partition type.
\<close>

definition slice_world :: "nat \<Rightarrow> string \<Rightarrow> string \<Rightarrow> string list \<Rightarrow> world" where
  "slice_world mx led eff groups =
     \<lparr>getMaxCPUs = mx,
      files = (\<lambda>p. [])(cpuset_cpus_exclusive := led, cpuset_cpus_effective := eff),
      written = [],
      dirs = {CGROUP_ROOT, RUNEXCL_SLICE} \<union>
        set (map (\<lambda>name. RUNEXCL_SLICE @ ''/runexcl.'' @ name) groups),
      entries = (\<lambda>p. []),
      exists_path = (\<lambda>p. False),
      fails = (\<lambda>c. False),
      partition_reply = (\<lambda>t. t)\<rparr>"


section \<open>Input streams\<close>

text \<open>
  A \<open>std::istream\<close> over a fixed sequence of characters: the characters, the read
  position and the state bits \<open>eofbit\<close> and \<open>failbit\<close> (no read error occurs, so \<open>badbit\<close>
  stays clear). \<open>skipws\<close> is set, as it is by default.
\<close>

record istream =
  buf :: string
  gpos :: nat
  eofbit :: bool
  failbit :: bool

definition istream_of :: "string \<Rightarrow> istream" where
  "istream_of str = \<lparr>buf = str, gpos = 0, eofbit = False, failbit = False\<rparr>"

definition good :: "istream \<Rightarrow> bool" where
  "good i = (\<not> eofbit i \<and> \<not> failbit i)"

definition unread :: "istream \<Rightarrow> string" where
  "unread i = drop (gpos i) (buf i)"

text \<open>
  The sentry of a formatted input function: it fails on a stream that is not good;
  otherwise it skips white space, and fails with \<open>eofbit\<close> when nothing is left.
\<close>

definition sentry :: "istream \<Rightarrow> bool \<times> istream" where
  "sentry i =
     (if \<not> good i then (False, i\<lparr>failbit := True\<rparr>)
      else
        let r = dropWhile isspace (unread i);
            i' = i\<lparr>gpos := gpos i + (length (unread i) - length r)\<rparr>
        in if r = [] then (False, i'\<lparr>eofbit := True, failbit := True\<rparr>) else (True, i'))"

definition INT_MAX :: int where
  "INT_MAX = 2147483647"

definition INT_MIN :: int where
  "INT_MIN = - 2147483648"

text \<open>
  \<open>operator>>(int&)\<close>: after the sentry one sign and the digits that follow are read;
  \<open>eofbit\<close> is set when the input ends there. Without a digit the extraction fails and
  stores 0; a value outside of \<open>int\<close> fails and stores the nearest bound.
\<close>

definition extract_int :: "istream \<Rightarrow> int \<times> istream" where
  "extract_int i =
     (case sentry i of
        (False, i1) \<Rightarrow> (0, i1)
      | (True, i1) \<Rightarrow>
          let r = unread i1;
              neg = (peek r = CHR ''-'');
              r1 = (if peek r = CHR ''-'' \<or> peek r = CHR ''+'' then tl r else r);
              ds = takeWhile isdigit r1;
              rest = dropWhile isdigit r1;
              i2 = i1\<lparr>gpos := gpos i1 + (length r - length rest), eofbit := (rest = [])\<rparr>;
              v = (if neg then - dec_val ds else dec_val ds)
          in if ds = [] then (0, i2\<lparr>failbit := True\<rparr>)
             else if v < INT_MIN then (INT_MIN, i2\<lparr>failbit := True\<rparr>)
             else if v > INT_MAX then (INT_MAX, i2\<lparr>failbit := True\<rparr>)
             else (v, i2))"

text \<open>\<open>get()\<close> returns the next character, or nothing (\<open>EOF\<close>) and a failed stream.\<close>

definition get :: "istream \<Rightarrow> char option \<times> istream" where
  "get i =
     (if \<not> good i then (None, i\<lparr>failbit := True\<rparr>)
      else if gpos i \<ge> length (buf i) then (None, i\<lparr>eofbit := True, failbit := True\<rparr>)
      else (Some (buf i ! gpos i), i\<lparr>gpos := gpos i + 1\<rparr>))"

text \<open>\<open>unget()\<close> clears \<open>eofbit\<close> and steps back one character unless the stream has failed.\<close>

definition unget :: "istream \<Rightarrow> istream" where
  "unget i =
     (if failbit i then i\<lparr>eofbit := False\<rparr>
      else if gpos i = 0 then i\<lparr>eofbit := False, failbit := True\<rparr>
      else i\<lparr>eofbit := False, gpos := gpos i - 1\<rparr>)"

lemma sentry_gpos: "gpos i \<le> gpos (snd (sentry i))" and sentry_buf: "buf (snd (sentry i)) = buf i"
  by (simp_all add: sentry_def Let_def)

lemma extract_int_gpos: "gpos i \<le> gpos (snd (extract_int i))"
proof -
  obtain b i1 where s: "sentry i = (b, i1)"
    by (cases "sentry i")
  with sentry_gpos [of i] have "gpos i \<le> gpos i1"
    by simp
  with s show ?thesis
    by (cases b) (simp_all add: extract_int_def Let_def)
qed

lemma extract_int_buf: "buf (snd (extract_int i)) = buf i"
  using sentry_buf [of i]
  by (auto simp: extract_int_def Let_def split: prod.splits bool.splits)

section \<open>The stream form of a CPUSet (CPUSet.cpp)\<close>

text \<open>
  One pass of \<open>while (in.good())\<close> in \<open>operator>>(std::istream&, CPUSet&)\<close>, with the local
  set \<open>_set\<close> and \<open>start\<close>. The loop is left by \<open>break\<close>, by \<open>goto done\<close> or when the stream
  is no longer good; in each case control reaches the label \<open>done\<close> with the set and the
  stream returned here.
\<close>

function extract_loop :: "CPUSet \<Rightarrow> int \<Rightarrow> istream \<Rightarrow> (exn + CPUSet) \<times> istream" where
  "extract_loop s start i =
     (if \<not> good i then (Inr s, i)
      else
        let cpu = fst (extract_int i); i1 = snd (extract_int i) in
        if failbit i1 then (Inr s, i1)
        else if cpu < 0 \<or> cpu \<ge> max_cpus s then (Inr s, i1\<lparr>failbit := True\<rparr>)
        else
          let c = (if eofbit i1 then None else fst (get i1));
              i2 = (if eofbit i1 then i1 else snd (get i1))
          in
          if failbit i2 then (Inr s, i2)
          else if c = Some CHR ''-'' then
            (if - 1 \<noteq> start then extract_loop s start (i2\<lparr>failbit := True\<rparr>)
             else extract_loop s cpu i2)
          else
            (case
               (if - 1 = start then
                  (case set_cpu s cpu of Inl e \<Rightarrow> Inl e | Inr s' \<Rightarrow> Inr (s', start, i2))
                else if start > cpu then Inr (s, start, i2\<lparr>failbit := True\<rparr>)
                else
                  (case set_range s start cpu of
                     Inl e \<Rightarrow> Inl e
                   | Inr s' \<Rightarrow> Inr (s', - 1, i2)))
             of
               Inl e \<Rightarrow> (Inl e, i2)
             | Inr (s', start', i3) \<Rightarrow>
                 if c \<noteq> Some CHR '','' \<and> c \<noteq> None then (Inr s', unget i3)
                 else extract_loop s' start' i3))"
  by pat_completeness auto
termination
proof (relation "measure (\<lambda>(s, start, i). if good i then Suc (length (buf i) - gpos i) else 0)",
    goal_cases)
  case 1
  show ?case by simp
next
  case (2 s start i cpu i1 c i2)
  then show ?case
    by (simp add: good_def)
next
  case (3 s start i cpu i1 c i2)
  from 3 have g: "\<not> eofbit i1" "fst (get i1) = Some CHR ''-''" "i2 = snd (get i1)"
    by (auto split: if_splits)
  then have "gpos i1 < length (buf i1)" "gpos i2 = gpos i1 + 1" "buf i2 = buf i1"
    by (auto simp: get_def split: if_splits)
  moreover from 3 have "gpos i \<le> gpos i1" "buf i1 = buf i"
    using extract_int_gpos [of i] extract_int_buf [of i] by simp_all
  ultimately have "length (buf i2) - gpos i2 < length (buf i) - gpos i"
    by simp
  moreover from 3 have "good i"
    by simp
  ultimately show ?case
    by simp
next
  case (4 s start i cpu i1 c i2 x s' y start' i3)
  from 4 have c: "c = Some CHR '','' \<or> c = None"
    by auto
  from 4 have i3: "i3 = i2 \<or> i3 = i2\<lparr>failbit := True\<rparr>"
    by (auto split: if_splits sum.splits)
  from 4 have x: "x = (s', start', i3)" and gi: "good i"
    by auto
  have "(if good i3 then Suc (length (buf i3) - gpos i3) else 0) < Suc (length (buf i) - gpos i)"
  proof (cases "eofbit i1")
    case True
    with 4 have "eofbit i2"
      by simp
    with i3 have "\<not> good i3"
      by (auto simp: good_def)
    then show ?thesis by simp
  next
    case False
    have "failbit (snd (get i1))" if "fst (get i1) = None"
      using that by (simp add: get_def split: if_splits)
    with False 4 c have g: "fst (get i1) = Some CHR '',''" "i2 = snd (get i1)"
      by (auto split: if_splits)
    then have "gpos i1 < length (buf i1)" "gpos i2 = gpos i1 + 1" "buf i2 = buf i1"
      by (auto simp: get_def split: if_splits)
    moreover from 4 have "gpos i \<le> gpos i1" "buf i1 = buf i"
      using extract_int_gpos [of i] extract_int_buf [of i] by simp_all
    ultimately have "length (buf i2) - gpos i2 < length (buf i) - gpos i"
      by simp
    moreover from i3 have "buf i3 = buf i2" "gpos i3 = gpos i2"
      by auto
    ultimately show ?thesis
      by simp
  qed
  with x gi show ?case
    by simp
qed

declare extract_loop.simps [simp del]

text \<open>
  \<open>operator>>(std::istream& in, CPUSet& set)\<close>: the new value of \<open>set\<close> and the stream. The
  set is assigned at \<open>done\<close> only when the stream has not failed.
\<close>

definition extract_cpuset :: "CPUSet \<Rightarrow> istream \<Rightarrow> (exn + CPUSet) \<times> istream" where
  "extract_cpuset target i =
     (case
        (case sentry i of
           (True, i1) \<Rightarrow> extract_loop (CPUSet_new (length target)) (- 1) i1
         | (False, i1) \<Rightarrow>
             (Inr (CPUSet_new (length target)),
              if eofbit i1 then i1\<lparr>failbit := False\<rparr> else i1))
      of
        (Inl e, i2) \<Rightarrow> (Inl e, i2)
      | (Inr s, i2) \<Rightarrow> (if \<not> failbit i2 then (Inr s, i2) else (Inr target, i2)))"


section \<open>Floating-point numbers\<close>

text \<open>
  A \<open>double\<close> is a finite number \<open>m * 2 ^ e\<close> with integers \<open>m\<close> and \<open>e\<close>, or an infinity,
  or not a number. Comparisons are those of the values and are false for NaN. The
  conversion to \<open>int\<close> truncates towards zero and is undefined when the result does not
  fit. The product of an \<open>int\<close> and a finite \<open>double\<close> is the exact product rounded to
  nearest, and to even on a tie.
\<close>

datatype double = Finite int int | PosInf | NegInf | NaN

definition dval :: "int \<Rightarrow> int \<Rightarrow> rat" where
  "dval m e = (if 0 \<le> e then of_int (m * 2 ^ nat e) else of_int m / of_int (2 ^ nat (- e)))"

fun double_gt :: "double \<Rightarrow> rat \<Rightarrow> bool" where
  "double_gt (Finite m e) c = (dval m e > c)"
| "double_gt PosInf c = True"
| "double_gt NegInf c = False"
| "double_gt NaN c = False"

fun double_ge :: "double \<Rightarrow> rat \<Rightarrow> bool" where
  "double_ge (Finite m e) c = (dval m e \<ge> c)"
| "double_ge PosInf c = True"
| "double_ge NegInf c = False"
| "double_ge NaN c = False"

fun double_le :: "double \<Rightarrow> rat \<Rightarrow> bool" where
  "double_le (Finite m e) c = (dval m e \<le> c)"
| "double_le PosInf c = False"
| "double_le NegInf c = True"
| "double_le NaN c = False"

fun double_eq :: "double \<Rightarrow> rat \<Rightarrow> bool" where
  "double_eq (Finite m e) c = (dval m e = c)"
| "double_eq PosInf c = False"
| "double_eq NegInf c = False"
| "double_eq NaN c = False"

definition trunc :: "rat \<Rightarrow> int" where
  "trunc x = (if 0 \<le> x then \<lfloor>x\<rfloor> else \<lceil>x\<rceil>)"

fun double_to_int :: "double \<Rightarrow> int option" where
  "double_to_int (Finite m e) =
     (if INT_MIN \<le> trunc (dval m e) \<and> trunc (dval m e) \<le> INT_MAX
      then Some (trunc (dval m e)) else None)"
| "double_to_int PosInf = None"
| "double_to_int NegInf = None"
| "double_to_int NaN = None"

definition int_to_double :: "int \<Rightarrow> double" where
  "int_to_double k = Finite k 0"

function bit_length :: "int \<Rightarrow> nat" where
  "bit_length n = (if n \<le> 0 then 0 else Suc (bit_length (n div 2)))"
  by pat_completeness auto
termination
  by (relation "measure nat") auto

declare bit_length.simps [simp del]

text \<open>
  The exact value \<open>m * 2 ^ e\<close> as a \<open>double\<close>: 53 bits are kept, fewer below the smallest
  normal number, and a value of \<open>2 ^ 1024\<close> or more becomes an infinity.
\<close>

definition round_double :: "int \<Rightarrow> int \<Rightarrow> double" where
  "round_double m e =
     (let e' = max e (max (e + int (bit_length \<bar>m\<bar>) - 53) (- 1074));
          sh = nat (e' - e);
          q = \<bar>m\<bar> div 2 ^ sh;
          r = \<bar>m\<bar> mod 2 ^ sh;
          q' = (if 2 * r > 2 ^ sh \<or> (2 * r = 2 ^ sh \<and> odd q) then q + 1 else q)
      in if int (bit_length q') + e' > 1024 then (if m > 0 then PosInf else NegInf)
         else Finite (sgn m * q') e')"

fun int_times_double :: "int \<Rightarrow> double \<Rightarrow> double" where
  "int_times_double k (Finite m e) = round_double (k * m) e"
| "int_times_double k PosInf = (if k > 0 then PosInf else if k < 0 then NegInf else NaN)"
| "int_times_double k NegInf = (if k > 0 then NegInf else if k < 0 then PosInf else NaN)"
| "int_times_double k NaN = NaN"

section \<open>The frequency controller (CPUGovernor.cpp)\<close>

definition CPU_ROOT :: string where
  "CPU_ROOT = ''/sys/devices/system/cpu''"

definition CPUFREQ_ROOT :: string where
  "CPUFREQ_ROOT = CPU_ROOT @ ''/cpufreq''"

definition PATH_AMD_PSTATE :: string where
  "PATH_AMD_PSTATE = CPU_ROOT @ ''/amd_pstate/status''"

text \<open>
  \<open>std::stoi\<close>: white space, a sign and digits; \<open>std::invalid_argument\<close> without a digit,
  \<open>std::out_of_range\<close> for a value that is not an \<open>int\<close>.
\<close>

definition stoi :: "string \<Rightarrow> exn + int" where
  "stoi str =
     (let s = dropWhile isspace str;
          neg = (peek s = CHR ''-'');
          s1 = (if peek s = CHR ''-'' \<or> peek s = CHR ''+'' then tl s else s);
          ds = takeWhile isdigit s1;
          v = (if neg then - dec_val ds else dec_val ds)
      in if ds = [] then Inl Invalid_argument
         else if v < INT_MIN \<or> v > INT_MAX then Inl Out_of_range
         else Inr v)"

text \<open>
  \<open>CPUPolicy\<close> and its subclass \<open>CPUAMDPStatePolicy\<close>. The member \<open>mPath\<close> of the class is
  \<open>mPolicyPath\<close> here. An object of either class lives on the heap; the drivers hold
  pointers, which are indices into the heap, and a deleted object leaves \<open>None\<close>.
\<close>

record CPUPolicy =
  mPolicyPath :: string
  mScalingGovernor :: string
  mScalingSetSpeed :: string
  mScalingMaxFreq :: int
  mScalingMinFreq :: int

record CPUAMDPStatePolicy = CPUPolicy +
  mLowestNonlinearFreq :: int

datatype policy = Base_policy CPUPolicy | AMD_policy CPUAMDPStatePolicy

type_synonym heap = "policy option list"

text \<open>The destructor \<open>~CPUPolicy()\<close>; it catches what \<open>sysfs_write\<close> throws.\<close>

definition CPUPolicy_delete :: "'a CPUPolicy_scheme \<Rightarrow> world \<Rightarrow> world" where
  "CPUPolicy_delete p w =
     (case
        (if mScalingSetSpeed p \<noteq> ''<unsupported>''
         then sysfs_write (mPolicyPath p @ ''/scaling_setspeed'') (mScalingSetSpeed p) w
         else Inr w)
      of
        Inl e \<Rightarrow> w
      | Inr w1 \<Rightarrow>
          (case sysfs_write (mPolicyPath p @ ''/scaling_governor'') (mScalingGovernor p) w1 of
             Inl e \<Rightarrow> w1
           | Inr w2 \<Rightarrow> w2))"

definition policy_delete :: "policy \<Rightarrow> world \<Rightarrow> world" where
  "policy_delete obj w =
     (case obj of Base_policy p \<Rightarrow> CPUPolicy_delete p w | AMD_policy p \<Rightarrow> CPUPolicy_delete p w)"

text \<open>The constructors.\<close>

definition CPUPolicy_new :: "string \<Rightarrow> world \<Rightarrow> exn + CPUPolicy" where
  "CPUPolicy_new path w =
     (case sysfs_read (path @ ''/scaling_governor'') w of Inl e \<Rightarrow> Inl e | Inr gov \<Rightarrow>
      case sysfs_read (path @ ''/scaling_setspeed'') w of Inl e \<Rightarrow> Inl e | Inr spd \<Rightarrow>
      case sysfs_read (path @ ''/scaling_max_freq'') w of Inl e \<Rightarrow> Inl e | Inr smax \<Rightarrow>
      case stoi smax of Inl e \<Rightarrow> Inl e | Inr fmax \<Rightarrow>
      case sysfs_read (path @ ''/scaling_min_freq'') w of Inl e \<Rightarrow> Inl e | Inr smin \<Rightarrow>
      case stoi smin of Inl e \<Rightarrow> Inl e | Inr fmin \<Rightarrow>
      Inr \<lparr>mPolicyPath = path, mScalingGovernor = gov, mScalingSetSpeed = spd,
           mScalingMaxFreq = fmax, mScalingMinFreq = fmin\<rparr>)"

text \<open>
  When the body of the subclass constructor throws, the base part, already constructed,
  is destroyed.
\<close>

definition CPUAMDPStatePolicy_new :: "string \<Rightarrow> world \<Rightarrow> (exn + CPUAMDPStatePolicy) \<times> world" where
  "CPUAMDPStatePolicy_new path w =
     (case CPUPolicy_new path w of
        Inl e \<Rightarrow> (Inl e, w)
      | Inr p \<Rightarrow>
          (case
             (case sysfs_read (path @ ''/amd_pstate_lowest_nonlinear_freq'') w of
                Inl e \<Rightarrow> Inl e
              | Inr s \<Rightarrow> stoi s)
           of
             Inl e \<Rightarrow> (Inl e, CPUPolicy_delete p w)
           | Inr f \<Rightarrow>
               (Inr \<lparr>mPolicyPath = mPolicyPath p, mScalingGovernor = mScalingGovernor p,
                     mScalingSetSpeed = mScalingSetSpeed p,
                     mScalingMaxFreq = mScalingMaxFreq p,
                     mScalingMinFreq = mScalingMinFreq p, mLowestNonlinearFreq = f\<rparr>, w)))"

text \<open>
  The value \<open>CPUPolicy::set_frequency\<close> passes to its last \<open>sysfs_write\<close>: \<open>_freq\<close> is chosen
  by the four tests on \<open>freq\<close> and is raised to \<open>mScalingMinFreq\<close> when it is below. \<open>None\<close>
  marks an undefined conversion of \<open>freq\<close> to \<open>int\<close>.
\<close>

definition set_frequency_value :: "'a CPUPolicy_scheme \<Rightarrow> double \<Rightarrow> int option" where
  "set_frequency_value p freq =
     (case
        (if double_gt freq 1 then double_to_int freq
         else if double_ge freq 0 \<and> double_le freq 1
           then double_to_int (int_times_double (mScalingMaxFreq p) freq)
         else if double_eq freq (- 1) then Some (mScalingMaxFreq p)
         else if double_eq freq (- 2) then Some (mScalingMinFreq p)
         else Some (mScalingMinFreq p))
      of
        None \<Rightarrow> None
      | Some f \<Rightarrow> Some (if f < mScalingMinFreq p then mScalingMinFreq p else f))"

definition CPUPolicy_set_frequency ::
    "'a CPUPolicy_scheme \<Rightarrow> double \<Rightarrow> world \<Rightarrow> (exn + unit) \<times> world" where
  "CPUPolicy_set_frequency p freq w =
     (case sysfs_write (mPolicyPath p @ ''/scaling_governor'') ''userspace'' w of
        Inl e \<Rightarrow> (Inl e, w)
      | Inr w1 \<Rightarrow>
          (case set_frequency_value p freq of
             None \<Rightarrow> (Inl Undefined_behaviour, w1)
           | Some f \<Rightarrow>
               (case sysfs_write (mPolicyPath p @ ''/scaling_setspeed'') (to_string_int f) w1 of
                  Inl e \<Rightarrow> (Inl e, w1)
                | Inr w2 \<Rightarrow> (Inr (), w2))))"

text \<open>The override \<open>CPUAMDPStatePolicy::set_frequency\<close>.\<close>

definition amd_frequency :: "CPUAMDPStatePolicy \<Rightarrow> double \<Rightarrow> double" where
  "amd_frequency p freq =
     (if double_eq freq (- 3) then int_to_double (mLowestNonlinearFreq p) else freq)"

definition CPUAMDPStatePolicy_set_frequency ::
    "CPUAMDPStatePolicy \<Rightarrow> double \<Rightarrow> world \<Rightarrow> (exn + unit) \<times> world" where
  "CPUAMDPStatePolicy_set_frequency p freq w = CPUPolicy_set_frequency p (amd_frequency p freq) w"

definition policy_set_frequency :: "policy \<Rightarrow> double \<Rightarrow> world \<Rightarrow> (exn + unit) \<times> world" where
  "policy_set_frequency obj freq w =
     (case obj of
        Base_policy p \<Rightarrow> CPUPolicy_set_frequency p freq w
      | AMD_policy p \<Rightarrow> CPUAMDPStatePolicy_set_frequency p freq w)"

text \<open>
  \<open>CPUPerformanceDriver\<close> and its subclass \<open>CPUAMDPStatePerformanceDriver\<close>. The vector
  \<open>mPolicies\<close> holds pointers to policies.
\<close>

record CPUPerformanceDriver =
  mPolicies :: "nat list"

record CPUAMDPStatePerformanceDriver = CPUPerformanceDriver +
  mStatus :: string

datatype driver = Base_driver CPUPerformanceDriver | AMD_driver CPUAMDPStatePerformanceDriver

definition driver_policies :: "driver \<Rightarrow> nat list" where
  "driver_policies d = (case d of Base_driver b \<Rightarrow> mPolicies b | AMD_driver a \<Rightarrow> mPolicies a)"

definition driver_push_back :: "driver \<Rightarrow> nat \<Rightarrow> driver" where
  "driver_push_back d ptr =
     (case d of
        Base_driver b \<Rightarrow> Base_driver (b\<lparr>mPolicies := mPolicies b @ [ptr]\<rparr>)
      | AMD_driver a \<Rightarrow> AMD_driver (a\<lparr>mPolicies := mPolicies a @ [ptr]\<rparr>))"

text \<open>
  \<open>delete policy\<close>: the destructor runs and the object is gone. Deleting what is not a
  live object is undefined.
\<close>

definition delete_policy :: "nat \<Rightarrow> heap \<Rightarrow> world \<Rightarrow> (exn + unit) \<times> heap \<times> world" where
  "delete_policy ptr h w =
     (if ptr < length h then
        (case h ! ptr of
           None \<Rightarrow> (Inl Undefined_behaviour, h, w)
         | Some obj \<Rightarrow> (Inr (), h[ptr := None], policy_delete obj w))
      else (Inl Undefined_behaviour, h, w))"

text \<open>The destructor \<open>~CPUPerformanceDriver()\<close>: every pointer in \<open>mPolicies\<close> is deleted.\<close>

fun delete_policies :: "nat list \<Rightarrow> heap \<Rightarrow> world \<Rightarrow> (exn + unit) \<times> heap \<times> world" where
  "delete_policies [] h w = (Inr (), h, w)"
| "delete_policies (ptr # ptrs) h w =
     (case delete_policy ptr h w of
        (Inl e, h1, w1) \<Rightarrow> (Inl e, h1, w1)
      | (Inr _, h1, w1) \<Rightarrow> delete_policies ptrs h1 w1)"

definition CPUPerformanceDriver_delete ::
    "'a CPUPerformanceDriver_scheme \<Rightarrow> heap \<Rightarrow> world \<Rightarrow> (exn + unit) \<times> heap \<times> world" where
  "CPUPerformanceDriver_delete d h w = delete_policies (mPolicies d) h w"

text \<open>
  The destructor \<open>~CPUAMDPStatePerformanceDriver()\<close>: \<open>mPolicies.clear()\<close> empties the vector
  of pointers, the status is written, and the destructor of the base class follows. An
  exception that leaves a destructor ends the program.
\<close>

definition CPUAMDPStatePerformanceDriver_delete ::
    "CPUAMDPStatePerformanceDriver \<Rightarrow> heap \<Rightarrow> world \<Rightarrow> (exn + unit) \<times> heap \<times> world" where
  "CPUAMDPStatePerformanceDriver_delete d h w =
     (let d1 = d\<lparr>mPolicies := []\<rparr> in
      case sysfs_write PATH_AMD_PSTATE (mStatus d1) w of
        Inl e \<Rightarrow> (Inl e, h, w)
      | Inr w1 \<Rightarrow> CPUPerformanceDriver_delete d1 h w1)"

text \<open>\<open>delete mImpl\<close>, through the virtual destructor; deleting the null pointer does nothing.\<close>

definition delete_driver :: "driver option \<Rightarrow> heap \<Rightarrow> world \<Rightarrow> (exn + unit) \<times> heap \<times> world" where
  "delete_driver d h w =
     (case d of
        None \<Rightarrow> (Inr (), h, w)
      | Some (Base_driver b) \<Rightarrow> CPUPerformanceDriver_delete b h w
      | Some (AMD_driver a) \<Rightarrow> CPUAMDPStatePerformanceDriver_delete a h w)"

text \<open>The virtual \<open>createPolicy\<close>: \<open>new\<close> puts the object at the end of the heap.\<close>

definition createPolicy :: "driver \<Rightarrow> string \<Rightarrow> heap \<Rightarrow> world \<Rightarrow> (exn + nat) \<times> heap \<times> world" where
  "createPolicy d path h w =
     (case d of
        Base_driver b \<Rightarrow>
          (case CPUPolicy_new path w of
             Inl e \<Rightarrow> (Inl e, h, w)
           | Inr p \<Rightarrow> (Inr (length h), h @ [Some (Base_policy p)], w))
      | AMD_driver a \<Rightarrow>
          (case CPUAMDPStatePolicy_new path w of
             (Inl e, w1) \<Rightarrow> (Inl e, h, w1)
           | (Inr p, w1) \<Rightarrow> (Inr (length h), h @ [Some (AMD_policy p)], w1)))"

text \<open>
  The inner loop of \<open>setup_policies\<close> over the numbers in \<open>affected_cpus\<close>: whether it
  reaches \<open>createPolicy\<close>.
\<close>

lemma extract_int_progress:
  assumes "good i" and "\<not> failbit (snd (extract_int i))"
  shows "gpos i < gpos (snd (extract_int i))" and "gpos i < length (buf i)"
proof -
  obtain b i1 where s: "sentry i = (b, i1)"
    by (cases "sentry i")
  from assms s have b: "b"
    by (cases b) (auto simp: extract_int_def sentry_def Let_def split: if_splits)
  from s b assms(1) have r: "dropWhile isspace (unread i) \<noteq> []"
    by (auto simp: sentry_def Let_def split: if_splits simp del: dropWhile_eq_Nil_conv)
  from s sentry_gpos [of i] sentry_buf [of i] have g1: "gpos i \<le> gpos i1" "buf i1 = buf i"
    by simp_all
  define r1 where
    "r1 = (if peek (unread i1) = CHR ''-'' \<or> peek (unread i1) = CHR ''+''
           then tl (unread i1) else unread i1)"
  have ds: "takeWhile isdigit r1 \<noteq> []"
    using assms(2) s b by (auto simp: extract_int_def Let_def r1_def split: if_splits)
  have "length (takeWhile isdigit r1) + length (dropWhile isdigit r1) = length r1"
    by (metis length_append takeWhile_dropWhile_id)
  with ds have "length (dropWhile isdigit r1) < length r1"
    by (cases "takeWhile isdigit r1") simp_all
  moreover have "length r1 \<le> length (unread i1)"
    by (simp add: r1_def)
  ultimately have lt: "length (dropWhile isdigit r1) < length (unread i1)"
    by simp
  have "gpos (snd (extract_int i)) = gpos i1 + (length (unread i1) - length (dropWhile isdigit r1))"
    using s b by (auto simp: extract_int_def Let_def r1_def)
  with lt g1 show "gpos i < gpos (snd (extract_int i))"
    by simp
  from r have "unread i \<noteq> []"
    by auto
  then show "gpos i < length (buf i)"
    by (simp add: unread_def)
qed

function affected_cpus_loop :: "CPUSet \<Rightarrow> istream \<Rightarrow> exn + bool" where
  "affected_cpus_loop s i =
     (if \<not> good i then Inr False
      else
        let cpu = fst (extract_int i); i1 = snd (extract_int i) in
        if failbit i1 \<or> cpu < 0 \<or> cpu \<ge> max_cpus s then Inr False
        else
          (case is_set s cpu of
             Inl e \<Rightarrow> Inl e
           | Inr hit \<Rightarrow> if hit then Inr True else affected_cpus_loop s i1))"
  by pat_completeness auto
termination
proof (relation "measure (\<lambda>(s, i). length (buf i) - gpos i)", goal_cases)
  case 1
  show ?case by simp
next
  case (2 s i cpu i1 hit)
  then have g: "good i" and f: "\<not> failbit (snd (extract_int i))" and i1: "i1 = snd (extract_int i)"
    by auto
  from extract_int_progress [OF g f] extract_int_buf [of i] i1 show ?case
    by simp
qed

declare affected_cpus_loop.simps [simp del]

text \<open>\<open>std::string::find\<close>: whether the text occurs.\<close>

fun found :: "string \<Rightarrow> string \<Rightarrow> bool" where
  "found sub [] = (sub = [])"
| "found sub (c # cs) = (take (length sub) (c # cs) = sub \<or> found sub cs)"

text \<open>
  \<open>setup_policies\<close>, over the entries \<open>directory_iterator\<close> yields. A \<open>std::ifstream\<close> that
  could not be opened is not good.
\<close>

fun setup_policies_loop ::
    "CPUSet \<Rightarrow> string list \<Rightarrow> driver \<Rightarrow> heap \<Rightarrow> world \<Rightarrow> (exn + unit) \<times> driver \<times> heap \<times> world" where
  "setup_policies_loop s [] d h w = (Inr (), d, h, w)"
| "setup_policies_loop s (name # names) d h w =
     (let path = CPUFREQ_ROOT @ ''/'' @ name in
      if path \<notin> dirs w then setup_policies_loop s names d h w
      else if \<not> found ''policy'' name then setup_policies_loop s names d h w
      else
        (case
           (if fails w (Open (path @ ''/affected_cpus'')) then Inr False
            else affected_cpus_loop s (istream_of (files w (path @ ''/affected_cpus''))))
         of
           Inl e \<Rightarrow> (Inl e, d, h, w)
         | Inr False \<Rightarrow> setup_policies_loop s names d h w
         | Inr True \<Rightarrow>
             (case createPolicy d path h w of
                (Inl e, h1, w1) \<Rightarrow> (Inl e, d, h1, w1)
              | (Inr ptr, h1, w1) \<Rightarrow> setup_policies_loop s names (driver_push_back d ptr) h1 w1)))"

definition setup_policies ::
    "CPUSet \<Rightarrow> driver \<Rightarrow> heap \<Rightarrow> world \<Rightarrow> (exn + unit) \<times> driver \<times> heap \<times> world" where
  "setup_policies s d h w =
     (if fails w (Open CPUFREQ_ROOT) then (Inl System_error, d, h, w)
      else setup_policies_loop s (entries w CPUFREQ_ROOT) d h w)"

text \<open>\<open>policy->set_frequency(freq)\<close> for every pointer in \<open>mPolicies\<close>.\<close>

fun set_frequency_loop :: "nat list \<Rightarrow> double \<Rightarrow> heap \<Rightarrow> world \<Rightarrow> (exn + unit) \<times> world" where
  "set_frequency_loop [] freq h w = (Inr (), w)"
| "set_frequency_loop (ptr # ptrs) freq h w =
     (if ptr < length h then
        (case h ! ptr of
           None \<Rightarrow> (Inl Undefined_behaviour, w)
         | Some obj \<Rightarrow>
             (case policy_set_frequency obj freq w of
                (Inl e, w1) \<Rightarrow> (Inl e, w1)
              | (Inr _, w1) \<Rightarrow> set_frequency_loop ptrs freq h w1))
      else (Inl Undefined_behaviour, w))"

definition driver_set_frequency ::
    "CPUSet \<Rightarrow> double \<Rightarrow> driver \<Rightarrow> heap \<Rightarrow> world \<Rightarrow> (exn + unit) \<times> driver \<times> heap \<times> world" where
  "driver_set_frequency s freq d h w =
     (case setup_policies s d h w of
        (Inl e, d1, h1, w1) \<Rightarrow> (Inl e, d1, h1, w1)
      | (Inr _, d1, h1, w1) \<Rightarrow>
          (case set_frequency_loop (driver_policies d1) freq h1 w1 of
             (r, w2) \<Rightarrow> (r, d1, h1, w2)))"

text \<open>\<open>CPUPerformanceDriver::create()\<close>.\<close>

definition create :: "world \<Rightarrow> exn + driver option \<times> world" where
  "create w =
     (if exists_path w PATH_AMD_PSTATE then
        (case sysfs_change PATH_AMD_PSTATE ''passive'' w of
           Inl e \<Rightarrow> Inl e
         | Inr (status, w1) \<Rightarrow> Inr (Some (AMD_driver \<lparr>mPolicies = [], mStatus = status\<rparr>), w1))
      else Inr (None, w))"

text \<open>
  \<open>CPUGovernor\<close>. A result \<open>Inl\<close> is the end of the program: a failed assertion, undefined
  behaviour or an exception out of a destructor. Everything else that is thrown is a
  \<open>std::exception\<close> and is caught in \<open>set_frequency\<close>.
\<close>

record CPUGovernor =
  mImpl :: "driver option"

definition CPUGovernor_new :: CPUGovernor where
  "CPUGovernor_new = \<lparr>mImpl = None\<rparr>"

definition CPUGovernor_delete :: "CPUGovernor \<Rightarrow> heap \<Rightarrow> world \<Rightarrow> (exn + unit) \<times> heap \<times> world" where
  "CPUGovernor_delete g h w = delete_driver (mImpl g) h w"

definition is_exception :: "exn \<Rightarrow> bool" where
  "is_exception e = (e \<noteq> Assertion_failed \<and> e \<noteq> Undefined_behaviour)"

definition CPUGovernor_set_frequency ::
    "CPUGovernor \<Rightarrow> CPUSet \<Rightarrow> double \<Rightarrow> heap \<Rightarrow> world
      \<Rightarrow> (exn + CPUGovernor) \<times> heap \<times> world" where
  "CPUGovernor_set_frequency g s freq h w =
     (case delete_driver (mImpl g) h w of
        (Inl e, h1, w1) \<Rightarrow> (Inl e, h1, w1)
      | (Inr _, h1, w1) \<Rightarrow>
          (case create w1 of
             Inl e \<Rightarrow> (Inr \<lparr>mImpl = None\<rparr>, h1, w1)
           | Inr (None, w2) \<Rightarrow> (Inr \<lparr>mImpl = None\<rparr>, h1, w2)
           | Inr (Some d, w2) \<Rightarrow>
               (case driver_set_frequency s freq d h1 w2 of
                  (Inr _, d1, h2, w3) \<Rightarrow> (Inr \<lparr>mImpl = Some d1\<rparr>, h2, w3)
                | (Inl e, d1, h2, w3) \<Rightarrow>
                    if is_exception e then
                      (case delete_driver (Some d1) h2 w3 of
                         (Inl e', h3, w4) \<Rightarrow> (Inl e', h3, w4)
                       | (Inr _, h3, w4) \<Rightarrow> (Inr \<lparr>mImpl = None\<rparr>, h3, w4))
                    else (Inl e, h2, w3))))"

subsection \<open>Example policies and machines\<close>



text \<open>
  A machine with the \<open>amd_pstate\<close> driver in the mode \<open>active\<close> and two policies, one per
  CPU: \<open>policy0\<close> runs \<open>schedutil\<close>, \<open>policy1\<close> runs \<open>ondemand\<close> with a set speed.
\<close>

definition amd_world :: world where
  "amd_world =
     \<lparr>getMaxCPUs = 4,
      files = (\<lambda>p. [])
        (PATH_AMD_PSTATE := ''active'' @ [CHR 0x0A],
         CPUFREQ_ROOT @ ''/policy0/affected_cpus'' := ''0'',
         CPUFREQ_ROOT @ ''/policy0/scaling_governor'' := ''schedutil'',
         CPUFREQ_ROOT @ ''/policy0/scaling_setspeed'' := ''<unsupported>'',
         CPUFREQ_ROOT @ ''/policy0/scaling_max_freq'' := ''3000000'',
         CPUFREQ_ROOT @ ''/policy0/scaling_min_freq'' := ''800000'',
         CPUFREQ_ROOT @ ''/policy0/amd_pstate_lowest_nonlinear_freq'' := ''1200000'',
         CPUFREQ_ROOT @ ''/policy1/affected_cpus'' := ''1'',
         CPUFREQ_ROOT @ ''/policy1/scaling_governor'' := ''ondemand'',
         CPUFREQ_ROOT @ ''/policy1/scaling_setspeed'' := ''2000000'',
         CPUFREQ_ROOT @ ''/policy1/scaling_max_freq'' := ''3000000'',
         CPUFREQ_ROOT @ ''/policy1/scaling_min_freq'' := ''800000'',
         CPUFREQ_ROOT @ ''/policy1/amd_pstate_lowest_nonlinear_freq'' := ''1200000''),
      written = [],
      dirs = {CPUFREQ_ROOT, CPUFREQ_ROOT @ ''/policy0'', CPUFREQ_ROOT @ ''/policy1''},
      entries = (\<lambda>p. if p = CPUFREQ_ROOT then [''policy0'', ''policy1''] else []),
      exists_path = (\<lambda>p. p = PATH_AMD_PSTATE),
      fails = (\<lambda>c. False),
      partition_reply = (\<lambda>t. t)\<rparr>"

section \<open>The slice and the child (CPUCGroup.cpp)\<close>










section \<open>The program (runexcl.cpp)\<close>












section \<open>Facts about the model\<close>

subsection \<open>Facts about the bit operations\<close>

lemma count_zero_iff: "count s = 0 \<longleftrightarrow> cpus s = {}"
proof
  assume "count s = 0"
  then have all: "\<forall>b \<in> set s. \<not> b"
    by (simp add: count_def filter_empty_conv)
  have "n \<notin> cpus s" for n
  proof
    assume "n \<in> cpus s"
    then have lt: "nat n < length s" and b: "s ! nat n"
      by (auto simp: cpus_def max_cpus_def)
    from lt have "s ! nat n \<in> set s"
      by (rule nth_mem)
    with all b show False by blast
  qed
  then show "cpus s = {}" by blast
next
  assume e: "cpus s = {}"
  have "\<not> b" if "b \<in> set s" for b
  proof
    assume b
    from that obtain k where k: "k < length s" "s ! k = b"
      unfolding in_set_conv_nth by blast
    with \<open>b\<close> have "int k \<in> cpus s"
      by (simp add: cpus_def max_cpus_def)
    with e show False by simp
  qed
  then have "\<forall>b \<in> set s. \<not> b"
    by blast
  then show "count s = 0"
    by (simp add: count_def filter_empty_conv)
qed

lemma first_loop_none:
  "0 \<le> i \<Longrightarrow> \<forall>j \<in> cpus s. j < i \<Longrightarrow> first_loop s i = Inr (- 1)"
proof (induction s i rule: first_loop.induct)
  case (1 s i)
  show ?case
  proof (cases "i < max_cpus s")
    case True
    with "1.prems" have ns: "\<not> s ! nat i"
      by (auto simp: cpus_def)
    from True "1.prems" have isf: "is_set s i = Inr False"
      using ns by (simp add: is_set_def)
    have "\<forall>j \<in> cpus s. j < i + 1"
      using "1.prems" by auto
    with "1.IH" [OF True isf] "1.prems" have "first_loop s (i + 1) = Inr (- 1)"
      by simp
    with True isf show ?thesis
      by (simp add: first_loop.simps [of s i])
  next
    case False
    then show ?thesis
      by (simp add: first_loop.simps [of s i])
  qed
qed

lemma first_loop_least:
  "0 \<le> i \<Longrightarrow> k \<in> cpus s \<Longrightarrow> i \<le> k \<Longrightarrow> \<forall>j \<in> cpus s. j < i \<or> k \<le> j \<Longrightarrow>
   first_loop s i = Inr k"
proof (induction s i rule: first_loop.induct)
  case (1 s i)
  from "1.prems" have lt: "i < max_cpus s"
    by (auto simp: cpus_def)
  show ?case
  proof (cases "s ! nat i")
    case True
    with lt "1.prems" have "i \<in> cpus s"
      by (simp add: cpus_def)
    with "1.prems" have ik: "i = k" by force
    from True lt "1.prems" have "is_set s i = Inr True"
      by (simp add: is_set_def)
    with lt have "first_loop s i = Inr i"
      by (simp add: first_loop.simps [of s i])
    with ik show ?thesis by simp
  next
    case False
    with lt "1.prems" have isf: "is_set s i = Inr False"
      by (simp add: is_set_def)
    from False "1.prems" have "i \<noteq> k"
      by (auto simp: cpus_def)
    with "1.prems" have le: "i + 1 \<le> k" by simp
    have "\<forall>j \<in> cpus s. j < i + 1 \<or> k \<le> j"
      using "1.prems" by auto
    with "1.IH" [OF lt isf] "1.prems" le have "first_loop s (i + 1) = Inr k"
      by simp
    with lt isf show ?thesis
      by (simp add: first_loop.simps [of s i])
  qed
qed

lemma last_loop_none:
  "i < max_cpus s \<Longrightarrow> \<forall>j \<in> cpus s. i < j \<Longrightarrow> last_loop s i = Inr (- 1)"
proof (induction s i rule: last_loop.induct)
  case (1 s i)
  show ?case
  proof (cases "i \<ge> 0")
    case True
    with "1.prems" have ns: "\<not> s ! nat i"
      by (auto simp: cpus_def)
    from True "1.prems" have isf: "is_set s i = Inr False"
      using ns by (simp add: is_set_def)
    have "\<forall>j \<in> cpus s. i - 1 < j"
      using "1.prems" by auto
    with "1.IH" [OF True isf] "1.prems" have "last_loop s (i - 1) = Inr (- 1)"
      by simp
    with True isf show ?thesis
      by (simp add: last_loop.simps [of s i])
  next
    case False
    then show ?thesis
      by (simp add: last_loop.simps [of s i])
  qed
qed

lemma last_loop_greatest:
  "i < max_cpus s \<Longrightarrow> k \<in> cpus s \<Longrightarrow> k \<le> i \<Longrightarrow> \<forall>j \<in> cpus s. i < j \<or> j \<le> k \<Longrightarrow>
   last_loop s i = Inr k"
proof (induction s i rule: last_loop.induct)
  case (1 s i)
  from "1.prems" have ge: "i \<ge> 0"
    by (auto simp: cpus_def)
  show ?case
  proof (cases "s ! nat i")
    case True
    with ge "1.prems" have "i \<in> cpus s"
      by (simp add: cpus_def)
    with "1.prems" have ik: "i = k" by force
    from True ge "1.prems" have "is_set s i = Inr True"
      by (simp add: is_set_def)
    with ge have "last_loop s i = Inr i"
      by (simp add: last_loop.simps [of s i])
    with ik show ?thesis by simp
  next
    case False
    with ge "1.prems" have isf: "is_set s i = Inr False"
      by (simp add: is_set_def)
    from False "1.prems" have "i \<noteq> k"
      by (auto simp: cpus_def)
    with "1.prems" have le: "k \<le> i - 1" by simp
    have "\<forall>j \<in> cpus s. i - 1 < j \<or> j \<le> k"
      using "1.prems" by auto
    with "1.IH" [OF ge isf] "1.prems" le have "last_loop s (i - 1) = Inr k"
      by simp
    with ge isf show ?thesis
      by (simp add: last_loop.simps [of s i])
  qed
qed

lemma finite_cpus: "finite (cpus s)"
proof -
  have "cpus s \<subseteq> {0 ..< max_cpus s}"
    by (auto simp: cpus_def)
  then show ?thesis
    by (rule finite_subset) simp
qed


subsection \<open>Setting bits\<close>

lemma cpus_inj:
  assumes "length a = length b" and "cpus a = cpus b"
  shows "a = b"
proof (rule nth_equalityI)
  show "length a = length b" by fact
next
  fix i
  assume i: "i < length a"
  then have "int i \<in> cpus a \<longleftrightarrow> a ! i" and "int i \<in> cpus b \<longleftrightarrow> b ! i"
    using assms(1) by (simp_all add: cpus_def max_cpus_def)
  with assms(2) show "a ! i = b ! i" by simp
qed

lemma cpus_CPUSet_new [simp]: "cpus (CPUSet_new mx) = {}"
  by (auto simp: cpus_def CPUSet_new_def max_cpus_def)

lemma cpus_zero [simp]: "cpus (zero s) = {}"
  by (auto simp: cpus_def zero_def max_cpus_def)

lemma length_zero [simp]: "length (zero s) = length s"
  by (simp add: zero_def)

lemma set_cpu_spec:
  assumes "0 \<le> n" and "n < max_cpus s"
  shows "\<exists>s'. set_cpu s n = Inr s' \<and> length s' = length s \<and> cpus s' = insert n (cpus s)"
proof -
  from assms have lt: "nat n < length s"
    by (simp add: max_cpus_def)
  have "cpus (s[nat n := True]) = insert n (cpus s)"
  proof (rule set_eqI)
    fix j
    show "j \<in> cpus (s[nat n := True]) \<longleftrightarrow> j \<in> insert n (cpus s)"
    proof (cases "j = n")
      case True
      with assms lt show ?thesis
        by (simp add: cpus_def max_cpus_def)
    next
      case False
      have "0 \<le> j \<Longrightarrow> nat n \<noteq> nat j"
        using False assms(1) by simp
      with False show ?thesis
        by (auto simp: cpus_def max_cpus_def nth_list_update)
    qed
  qed
  with assms show ?thesis
    by (simp add: set_cpu_def)
qed

lemma set_range_spec:
  "0 \<le> a \<Longrightarrow> b < max_cpus s \<Longrightarrow>
   \<exists>s'. set_range s a b = Inr s' \<and> length s' = length s \<and> cpus s' = cpus s \<union> {a .. b}"
proof (induction s a b rule: set_range.induct)
  case (1 s start cpu)
  show ?case
  proof (cases "start \<le> cpu")
    case True
    with "1.prems" obtain s1 where s1: "set_cpu s start = Inr s1" "length s1 = length s"
        "cpus s1 = insert start (cpus s)"
      using set_cpu_spec [of start s] by auto
    from s1 "1.prems" have "cpu < max_cpus s1"
      by (simp add: max_cpus_def)
    with "1.IH" [OF True s1(1)] "1.prems" obtain s' where
      s': "set_range s1 (start + 1) cpu = Inr s'" "length s' = length s1"
        "cpus s' = cpus s1 \<union> {start + 1 .. cpu}"
      by auto
    have "insert start (cpus s) \<union> {start + 1 .. cpu} = cpus s \<union> {start .. cpu}"
      using True by auto
    with s1 s' True show ?thesis
      by (simp add: set_range.simps [of s start cpu])
  next
    case False
    then show ?thesis
      by (simp add: set_range.simps [of s start cpu])
  qed
qed

lemma cpus_code [code]: "cpus s = set (map int (filter (\<lambda>i. s ! i) [0 ..< length s]))"
proof (rule set_eqI)
  fix n
  show "n \<in> cpus s \<longleftrightarrow> n \<in> set (map int (filter (\<lambda>i. s ! i) [0 ..< length s]))"
  proof
    assume "n \<in> cpus s"
    then have "nat n < length s" "s ! nat n" "int (nat n) = n"
      by (auto simp: cpus_def max_cpus_def)
    then show "n \<in> set (map int (filter (\<lambda>i. s ! i) [0 ..< length s]))"
      by force
  next
    assume "n \<in> set (map int (filter (\<lambda>i. s ! i) [0 ..< length s]))"
    then show "n \<in> cpus s"
      by (auto simp: cpus_def max_cpus_def)
  qed
qed


subsection \<open>What \<open>strtoul\<close> converts\<close>

lemma isdigit_not_special:
  assumes "isdigit c"
  shows "\<not> isspace c" and "c \<noteq> CHR ''-''" and "c \<noteq> CHR ''+''" and "c \<noteq> CHR '',''"
    and "c \<noteq> NUL"
  using assms by (auto simp: isdigit_def isspace_def NUL_def)

lemma not_isdigit_NUL [simp]: "\<not> isdigit NUL"
  by (simp add: isdigit_def NUL_def)

lemma sign_not_space [simp]: "\<not> isspace CHR ''-''" "\<not> isspace CHR ''+''"
  by (simp_all add: isspace_def)

lemma takeWhile_digits_rest:
  assumes "list_all isdigit ds" and "\<not> isdigit (peek r)"
  shows "takeWhile isdigit (ds @ r) = ds" and "dropWhile isdigit (ds @ r) = r"
proof -
  from assms(2) have r: "takeWhile isdigit r = []" "dropWhile isdigit r = r"
    by (cases r; simp add: peek_def)+
  from assms(1) have all: "\<And>x. x \<in> set ds \<Longrightarrow> isdigit x"
    by (simp add: list_all_iff)
  show "takeWhile isdigit (ds @ r) = ds"
    using all r by (simp add: takeWhile_append2)
  show "dropWhile isdigit (ds @ r) = r"
    using all r by (simp add: dropWhile_append2)
qed

lemma strtoul_parts:
  assumes "lex_parts ws sg ds" and "\<not> isdigit (peek r)"
  shows "strtoul (ws @ sg @ ds @ r) = (lex_value sg ds, r)"
proof -
  from assms(1) have ws: "\<And>x. x \<in> set ws \<Longrightarrow> isspace x"
    and sg: "sg = [] \<or> sg = ''-'' \<or> sg = ''+''"
    and ds: "ds \<noteq> []" "list_all isdigit ds"
    by (simp_all add: lex_parts_def list_all_iff)
  from ds obtain d ds' where d: "ds = d # ds'" "isdigit d"
    by (cases ds) auto
  have nosp: "\<not> isspace (hd (sg @ ds @ r))"
    using sg d isdigit_not_special(1) [of d] by auto
  have ne: "sg @ ds @ r \<noteq> []"
    using ds by simp
  have "dropWhile isspace (ws @ sg @ ds @ r) = dropWhile isspace (sg @ ds @ r)"
    using ws by (simp add: dropWhile_append2)
  also have "\<dots> = sg @ ds @ r"
    using nosp ne by (cases "sg @ ds @ r") simp_all
  finally have dw: "dropWhile isspace (ws @ sg @ ds @ r) = sg @ ds @ r" .
  have tk: "takeWhile isdigit (ds @ r) = ds" and dr: "dropWhile isdigit (ds @ r) = r"
    using takeWhile_digits_rest [OF ds(2) assms(2)] by simp_all
  from sg show ?thesis
  proof (elim disjE)
    assume e: "sg = []"
    have "peek (ds @ r) \<noteq> CHR ''-''" "peek (ds @ r) \<noteq> CHR ''+''"
      using d isdigit_not_special [of d] by (simp_all add: peek_def)
    with e dw tk dr ds show ?thesis
      by (simp add: strtoul_def Let_def lex_value_def)
  next
    assume e: "sg = ''-''"
    with dw tk dr ds show ?thesis
      by (simp add: strtoul_def Let_def lex_value_def peek_def)
  next
    assume e: "sg = ''+''"
    with dw tk dr ds show ?thesis
      by (simp add: strtoul_def Let_def lex_value_def peek_def)
  qed
qed

lemma strtoul_converted:
  assumes "snd (strtoul pos) \<noteq> pos"
  shows "\<exists>ws sg ds. lex_parts ws sg ds \<and> pos = ws @ sg @ ds @ snd (strtoul pos) \<and>
           \<not> isdigit (peek (snd (strtoul pos))) \<and> fst (strtoul pos) = lex_value sg ds"
proof -
  define s where "s = dropWhile isspace pos"
  define sg where "sg = (if peek s = CHR ''-'' then ''-'' else if peek s = CHR ''+'' then ''+'' else [])"
  define s1 where "s1 = (if peek s = CHR ''-'' \<or> peek s = CHR ''+'' then tl s else s)"
  define ds where "ds = takeWhile isdigit s1"
  define endp where "endp = dropWhile isdigit s1"
  have st: "strtoul pos =
      (if ds = [] then (0, pos)
       else if dec_val ds > ULONG_MAX then (ULONG_MAX, endp)
       else if peek s = CHR ''-'' then ((- dec_val ds) mod 2 ^ 64, endp)
       else (dec_val ds, endp))"
    by (simp add: strtoul_def Let_def s_def s1_def ds_def endp_def)
  with assms have ne: "ds \<noteq> []"
    by (auto split: if_splits)
  with st have e: "snd (strtoul pos) = endp"
    by simp
  have p1: "pos = takeWhile isspace pos @ s"
    by (simp add: s_def)
  have p2: "s = sg @ s1"
  proof (cases s)
    case Nil
    then show ?thesis by (simp add: sg_def s1_def peek_def NUL_def)
  next
    case (Cons c t)
    then show ?thesis by (simp add: sg_def s1_def peek_def)
  qed
  have p3: "s1 = ds @ endp"
    by (simp add: ds_def endp_def)
  have nd: "\<not> isdigit (peek endp)"
  proof (cases endp)
    case Nil
    then show ?thesis by (simp add: peek_def)
  next
    case (Cons c t)
    then have "hd (dropWhile isdigit s1) = c" "dropWhile isdigit s1 \<noteq> []"
      by (simp_all add: endp_def)
    then have "\<not> isdigit c"
      using hd_dropWhile [of isdigit s1] by auto
    with Cons show ?thesis by (simp add: peek_def)
  qed
  have lp: "lex_parts (takeWhile isspace pos) sg ds"
  proof -
    have "list_all isspace (takeWhile isspace pos)"
      by (auto simp: list_all_iff dest: set_takeWhileD)
    moreover have "list_all isdigit ds"
      by (auto simp: list_all_iff ds_def dest: set_takeWhileD)
    ultimately show ?thesis
      using ne by (simp add: lex_parts_def sg_def)
  qed
  have v: "fst (strtoul pos) = lex_value sg ds"
    using ne by (simp add: st lex_value_def sg_def)
  from p1 p2 p3 have "pos = takeWhile isspace pos @ sg @ ds @ endp"
    by simp
  with lp nd v e show ?thesis
    by metis
qed

lemma lexeme_parts:
  "lexeme l \<longleftrightarrow> (\<exists>ws sg ds. lex_parts ws sg ds \<and> l = ws @ sg @ ds)"
proof
  assume l: "lexeme l"
  then have "snd (strtoul l) \<noteq> l"
    by (auto simp: lexeme_def)
  from strtoul_converted [OF this] l show "\<exists>ws sg ds. lex_parts ws sg ds \<and> l = ws @ sg @ ds"
    by (auto simp: lexeme_def)
next
  assume "\<exists>ws sg ds. lex_parts ws sg ds \<and> l = ws @ sg @ ds"
  then obtain ws sg ds where p: "lex_parts ws sg ds" "l = ws @ sg @ ds"
    by blast
  from strtoul_parts [OF p(1), of "[]"] have "strtoul l = (lex_value sg ds, [])"
    using p(2) by (simp add: peek_def)
  moreover from p have "l \<noteq> []"
    by (simp add: lex_parts_def)
  ultimately show "lexeme l"
    by (simp add: lexeme_def)
qed

lemma strtoul_lexeme:
  assumes "lexeme l" and "\<not> isdigit (peek r)"
  shows "strtoul (l @ r) = (num_val l, r)"
proof -
  from assms(1) obtain ws sg ds where p: "lex_parts ws sg ds" "l = ws @ sg @ ds"
    by (auto simp: lexeme_parts)
  from strtoul_parts [OF p(1), of "[]"] have "num_val l = lex_value sg ds"
    using p(2) by (simp add: peek_def num_val_def)
  with strtoul_parts [OF p(1) assms(2)] p(2) show ?thesis
    by simp
qed


lemma foldl_dec_nonneg:
  "\<forall>x \<in> set ds. isdigit x \<Longrightarrow> 0 \<le> a \<Longrightarrow> 0 \<le> foldl (\<lambda>a c. 10 * a + digit_val c) a ds"
proof (induction ds arbitrary: a)
  case Nil
  then show ?case by simp
next
  case (Cons d ds)
  from Cons.prems have "0 \<le> 10 * a + digit_val d"
    by (simp add: isdigit_def digit_val_def)
  with Cons show ?case by simp
qed

lemma dec_val_nonneg: "list_all isdigit ds \<Longrightarrow> 0 \<le> dec_val ds"
  unfolding dec_val_def by (rule foldl_dec_nonneg) (simp_all add: list_all_iff)

lemma lex_value_nonneg: "list_all isdigit ds \<Longrightarrow> 0 \<le> lex_value sg ds"
  by (simp add: lex_value_def ULONG_MAX_def dec_val_nonneg)

lemma num_val_nonneg: "0 \<le> num_val l"
proof (cases "snd (strtoul l) = l")
  case True
  have "list_all isdigit (takeWhile isdigit xs)" for xs
    by (auto simp: list_all_iff dest: set_takeWhileD)
  then have "0 \<le> dec_val (takeWhile isdigit xs)" for xs
    by (rule dec_val_nonneg)
  then show ?thesis
    by (simp add: num_val_def strtoul_def Let_def ULONG_MAX_def)
next
  case False
  from strtoul_converted [OF this] show ?thesis
    by (auto simp: num_val_def lex_parts_def lex_value_nonneg)
qed


subsection \<open>One round of the parse loop\<close>

lemma list_string_Cons: "list_string (x # ys) = item_string x @ and_more ys"
  by (cases ys) (simp_all add: and_more_def)

lemma peek_and_more: "peek (and_more its) = (if its = [] then NUL else CHR '','')"
  by (simp add: and_more_def peek_def)

lemma tl_and_more: "its \<noteq> [] \<Longrightarrow> tl (and_more its) = list_string its"
  by (simp add: and_more_def)

lemma set_range_length: "set_range s a b = Inr s' \<Longrightarrow> length s' = length s"
proof (induction s a b rule: set_range.induct)
  case (1 s start cpu)
  show ?case
  proof (cases "start \<le> cpu")
    case True
    with "1.prems" obtain s1 where s1: "set_cpu s start = Inr s1"
      "set_range s1 (start + 1) cpu = Inr s'"
      by (auto simp: set_range.simps [of s start cpu] split: sum.splits)
    from s1(1) have "length s1 = length s"
      by (auto simp: set_cpu_def split: if_splits)
    with "1.IH" [OF True s1(1) s1(2)] show ?thesis by simp
  next
    case False
    with "1.prems" show ?thesis
      by (simp add: set_range.simps [of s start cpu])
  qed
qed

lemma parse_item_length: "parse_item s start cpu c = Inr (s', start') \<Longrightarrow> length s' = length s"
  by (auto simp: parse_item_def set_cpu_def split: if_splits sum.splits dest: set_range_length)

lemma parse_item_single:
  assumes "c = NUL \<or> c = CHR '',''" and "0 \<le> cpu" and "cpu < max_cpus s"
  shows "\<exists>s'. parse_item s (- 1) cpu c = Inr (s', - 1) \<and> length s' = length s \<and>
           cpus s' = insert cpu (cpus s)"
proof -
  from set_cpu_spec [OF assms(2,3)] obtain s' where
    "set_cpu s cpu = Inr s'" "length s' = length s" "cpus s' = insert cpu (cpus s)"
    by blast
  with assms(1) show ?thesis
    by (auto simp: parse_item_def)
qed

lemma parse_item_range:
  assumes "c = NUL \<or> c = CHR '',''" and "0 \<le> start" and "start \<le> cpu" and "cpu < max_cpus s"
  shows "\<exists>s'. parse_item s start cpu c = Inr (s', - 1) \<and> length s' = length s \<and>
           cpus s' = cpus s \<union> {start .. cpu}"
proof -
  from set_range_spec [OF assms(2,4)] obtain s' where
    "set_range s start cpu = Inr s'" "length s' = length s" "cpus s' = cpus s \<union> {start .. cpu}"
    by blast
  with assms(1,2,3) show ?thesis
    by (auto simp: parse_item_def)
qed

lemma parse_item_hyphen: "parse_item s (- 1) cpu CHR ''-'' = Inr (s, cpu)"
  by (simp add: parse_item_def NUL_def)

lemma parse_loop_lexeme:
  assumes "lexeme l" and "\<not> isdigit (peek r)"
  shows "parse_loop str s start (l @ r) =
     (if num_val l \<ge> max_cpus s then Inl Range_error
      else
        (case parse_item s start (num_val l) (peek r) of
           Inl e \<Rightarrow> Inl e
         | Inr (s', start') \<Rightarrow>
             if NUL = peek r then Inr s' else parse_loop str s' start' (tl r)))"
proof -
  from assms(1) have "l \<noteq> []"
    by (simp add: lexeme_def)
  then have "r \<noteq> l @ r"
    by simp
  with strtoul_lexeme [OF assms] show ?thesis
    by (simp add: parse_loop.simps [of str s start "l @ r"])
qed

lemma parse_loop_unconverted:
  assumes "snd (strtoul pos) = pos"
  shows "parse_loop str s start pos =
     (if NUL = peek pos \<and> pos = str then Inr s else Inl Invalid_argument)"
  using assms by (auto simp: parse_loop.simps [of str s start pos])

subsection \<open>Every string of the grammar is parsed\<close>

lemma parse_loop_complete:
  "its \<noteq> [] \<Longrightarrow> list_all (accepted_item (max_cpus s)) its \<Longrightarrow>
   \<exists>s'. parse_loop str s (- 1) (list_string its) = Inr s' \<and> length s' = length s \<and>
     cpus s' = cpus s \<union> \<Union> (item_cpus ` set its)"
proof (induction its arbitrary: s)
  case Nil
  then show ?case by simp
next
  case (Cons x ys)
  have nd: "\<not> isdigit (peek (and_more ys))"
    by (simp add: peek_and_more isdigit_def NUL_def)
  have sep: "peek (and_more ys) = NUL \<or> peek (and_more ys) = CHR '',''"
    by (simp add: peek_and_more)
  have rest: "\<exists>s'. (if NUL = peek (and_more ys) then Inr s1 else parse_loop str s1 (- 1) (tl (and_more ys)))
        = Inr s' \<and> length s' = length s \<and> cpus s' = cpus s1 \<union> \<Union> (item_cpus ` set ys)"
    if "length s1 = length s" for s1
  proof (cases "ys = []")
    case True
    with that show ?thesis by (simp add: peek_and_more)
  next
    case False
    from that have "max_cpus s1 = max_cpus s"
      by (simp add: max_cpus_def)
    with Cons.prems have "list_all (accepted_item (max_cpus s1)) ys"
      by simp
    from Cons.IH [OF False this] that False show ?thesis
      by (simp add: peek_and_more tl_and_more NUL_def)
  qed
  show ?case
  proof (cases x)
    case (Single a)
    with Cons.prems have a: "lexeme a" "num_val a < max_cpus s"
      by simp_all
    from parse_item_single [OF sep num_val_nonneg a(2)] obtain s1 where
      s1: "parse_item s (- 1) (num_val a) (peek (and_more ys)) = Inr (s1, - 1)"
        "length s1 = length s" "cpus s1 = insert (num_val a) (cpus s)"
      by blast
    from rest [OF s1(2)] obtain s' where
      s': "(if NUL = peek (and_more ys) then Inr s1 else parse_loop str s1 (- 1) (tl (and_more ys)))
        = Inr s'" "length s' = length s" "cpus s' = cpus s1 \<union> \<Union> (item_cpus ` set ys)"
      by blast
    have "parse_loop str s (- 1) (list_string (x # ys)) = Inr s'"
      using a s1(1) s'(1)
      by (simp add: list_string_Cons Single parse_loop_lexeme [OF a(1) nd])
    moreover have "cpus s' = cpus s \<union> \<Union> (item_cpus ` set (x # ys))"
      using s'(3) s1(3) Single by auto
    ultimately show ?thesis
      using s'(2) by blast
  next
    case (Range a b)
    with Cons.prems have a: "lexeme a" and b: "lexeme b"
      and le: "num_val a \<le> num_val b" and lt: "num_val b < max_cpus s"
      by simp_all
    have nd1: "\<not> isdigit (peek (CHR ''-'' # b @ and_more ys))"
      by (simp add: peek_def isdigit_def)
    have step1: "parse_loop str s (- 1) (a @ CHR ''-'' # b @ and_more ys) =
        parse_loop str s (num_val a) (b @ and_more ys)"
      using le lt
      by (simp add: parse_loop_lexeme [OF a nd1] peek_def parse_item_hyphen NUL_def)
    from parse_item_range [OF sep num_val_nonneg le lt] obtain s1 where
      s1: "parse_item s (num_val a) (num_val b) (peek (and_more ys)) = Inr (s1, - 1)"
        "length s1 = length s" "cpus s1 = cpus s \<union> {num_val a .. num_val b}"
      by blast
    from rest [OF s1(2)] obtain s' where
      s': "(if NUL = peek (and_more ys) then Inr s1 else parse_loop str s1 (- 1) (tl (and_more ys)))
        = Inr s'" "length s' = length s" "cpus s' = cpus s1 \<union> \<Union> (item_cpus ` set ys)"
      by blast
    have "parse_loop str s (num_val a) (b @ and_more ys) = Inr s'"
      using lt s1(1) s'(1)
      by (simp add: parse_loop_lexeme [OF b nd])
    with step1 have "parse_loop str s (- 1) (list_string (x # ys)) = Inr s'"
      by (simp add: list_string_Cons Range)
    moreover have "cpus s' = cpus s \<union> \<Union> (item_cpus ` set (x # ys))"
      using s'(3) s1(3) Range by auto
    ultimately show ?thesis
      using s'(2) by blast
  qed
qed


subsection \<open>Only strings of the grammar are parsed\<close>




subsection \<open>Decimal numerals\<close>

lemma dec_val_snoc: "dec_val (ds @ [c]) = 10 * dec_val ds + digit_val c"
  by (simp add: dec_val_def)

lemma digit_char_props:
  assumes "0 \<le> d" and "d < 10"
  shows "isdigit (digit_char d)" and "digit_val (digit_char d) = d"
proof -
  from assms have "(of_char (char_of (48 + d)) :: int) = 48 + d"
    by simp
  with assms show "isdigit (digit_char d)" and "digit_val (digit_char d) = d"
    by (simp_all add: isdigit_def digit_val_def digit_char_def)
qed

lemma nat_digits_props: "0 \<le> n \<Longrightarrow> decimal (nat_digits n) \<and> dec_val (nat_digits n) = n"
proof (induction n rule: nat_digits.induct)
  case (1 n)
  show ?case
  proof (cases "n < 10")
    case True
    with "1.prems" digit_char_props [of n] show ?thesis
      by (simp add: nat_digits.simps [of n] decimal_def dec_val_def)
  next
    case False
    with "1.IH" "1.prems" have IH: "decimal (nat_digits (n div 10))"
      "dec_val (nat_digits (n div 10)) = n div 10"
      by simp_all
    have d: "isdigit (digit_char (n mod 10))" "digit_val (digit_char (n mod 10)) = n mod 10"
      using digit_char_props [of "n mod 10"] by simp_all
    from False IH d show ?thesis
      by (simp add: nat_digits.simps [of n] decimal_def dec_val_snoc)
  qed
qed

lemma to_string_int_props:
  "0 \<le> n \<Longrightarrow> decimal (to_string_int n) \<and> dec_val (to_string_int n) = n"
  using nat_digits_props [of n] by (simp add: to_string_int_def)

lemma decimal_lexeme:
  assumes "decimal a"
  shows "lexeme a" and "dec_val a \<le> ULONG_MAX \<Longrightarrow> num_val a = dec_val a"
proof -
  from assms have p: "lex_parts [] [] a"
    by (simp add: lex_parts_def decimal_def)
  from strtoul_parts [OF p, of "[]"] have st: "strtoul a = (lex_value [] a, [])"
    by (simp add: peek_def)
  with assms show "lexeme a"
    by (simp add: lexeme_def decimal_def)
  from st show "dec_val a \<le> ULONG_MAX \<Longrightarrow> num_val a = dec_val a"
    by (simp add: num_val_def lex_value_def)
qed

lemma valid_item_accepted:
  assumes "valid_item mx x" and "mx \<le> 2 ^ 64"
  shows "accepted_item mx x" and "item_cpus x = valid_cpus x"
proof -
  have v: "num_val a = dec_val a" if "decimal a" "dec_val a < mx" for a
    using that assms(2) decimal_lexeme(2) [of a] by (simp add: ULONG_MAX_def)
  show "accepted_item mx x"
    using assms(1) v by (cases x) (auto simp: decimal_lexeme(1))
  show "item_cpus x = valid_cpus x"
    using assms(1) v by (cases x) auto
qed

lemma valid_items_accepted:
  assumes "list_all (valid_item mx) its" and "mx \<le> 2 ^ 64"
  shows "list_all (accepted_item mx) its"
    and "\<Union> (item_cpus ` set its) = \<Union> (valid_cpus ` set its)"
  using assms valid_item_accepted [of mx] by (auto simp: list_all_iff)

lemma valid_cpus_nonempty: "valid_item mx x \<Longrightarrow> valid_cpus x \<noteq> {}"
  by (cases x) auto

subsection \<open>The string \<open>to_string\<close> builds\<close>

lemma skip_set_spec:
  "0 \<le> n \<Longrightarrow> n \<le> max_cpus s \<Longrightarrow>
   \<exists>n'. skip_set s n = Inr n' \<and> n \<le> n' \<and> n' \<le> max_cpus s \<and>
     (\<forall>j. n \<le> j \<and> j < n' \<longrightarrow> j \<in> cpus s) \<and> n' \<notin> cpus s"
proof (induction s n rule: skip_set.induct)
  case (1 s n)
  show ?case
  proof (cases "n < max_cpus s")
    case True
    show ?thesis
    proof (cases "s ! nat n")
      case set: True
      with True "1.prems" have isf: "is_set s n = Inr True"
        by (simp add: is_set_def)
      from set True "1.prems" have n: "n \<in> cpus s"
        by (simp add: cpus_def)
      from "1.IH" [OF True isf] True "1.prems" obtain n' where
        n': "skip_set s (n + 1) = Inr n'" "n + 1 \<le> n'" "n' \<le> max_cpus s"
          "\<forall>j. n + 1 \<le> j \<and> j < n' \<longrightarrow> j \<in> cpus s" "n' \<notin> cpus s"
        by auto
      have "\<forall>j. n \<le> j \<and> j < n' \<longrightarrow> j \<in> cpus s"
      proof (intro allI impI)
        fix j
        assume "n \<le> j \<and> j < n'"
        then have "j = n \<or> n + 1 \<le> j \<and> j < n'"
          by auto
        with n n'(4) show "j \<in> cpus s"
          by blast
      qed
      with n' True isf show ?thesis
        by (simp add: skip_set.simps [of s n])
    next
      case False
      with True "1.prems" have "is_set s n = Inr False"
        by (simp add: is_set_def)
      moreover from False have "n \<notin> cpus s"
        by (simp add: cpus_def)
      ultimately show ?thesis
        using True by (auto simp: skip_set.simps [of s n])
    qed
  next
    case False
    then have "skip_set s n = Inr n"
      by (simp add: skip_set.simps [of s n])
    moreover from False have "n \<notin> cpus s"
      by (simp add: cpus_def)
    ultimately show ?thesis
      using "1.prems" by auto
  qed
qed

lemma to_string_loop_spec:
  "0 \<le> n \<Longrightarrow>
   \<exists>its. to_string_loop s n first_item result =
       Inr (result @ (if first_item then list_string its else and_more its)) \<and>
     list_all (valid_item (max_cpus s)) its \<and>
     \<Union> (valid_cpus ` set its) = {j \<in> cpus s. n \<le> j}"
proof (induction s n first_item result rule: to_string_loop.induct)
  case (1 s n first_item result)
  show ?case
  proof (cases "n < max_cpus s")
    case False
    then have "to_string_loop s n first_item result = Inr result"
      by (simp add: to_string_loop.simps [of s n])
    moreover from False have "{j \<in> cpus s. n \<le> j} = {}"
      by (auto simp: cpus_def)
    ultimately show ?thesis
      by (intro exI [of _ "[]"]) (simp add: and_more_def)
  next
    case True
    show ?thesis
    proof (cases "s ! nat n")
      case False
      with True "1.prems" have isf: "is_set s n = Inr False"
        by (simp add: is_set_def)
      from "1.IH"(2) [OF True isf] "1.prems" obtain its where
        its: "to_string_loop s (n + 1) first_item result =
           Inr (result @ (if first_item then list_string its else and_more its))"
          "list_all (valid_item (max_cpus s)) its"
          "\<Union> (valid_cpus ` set its) = {j \<in> cpus s. n + 1 \<le> j}"
        by auto
      from False have "n \<notin> cpus s"
        by (simp add: cpus_def)
      then have "{j \<in> cpus s. n + 1 \<le> j} = {j \<in> cpus s. n \<le> j}"
        by (auto simp: order_le_less)
      with its(3) have "\<Union> (valid_cpus ` set its) = {j \<in> cpus s. n \<le> j}"
        by simp
      moreover have "to_string_loop s n first_item result =
          Inr (result @ (if first_item then list_string its else and_more its))"
        using its(1) True isf by (simp add: to_string_loop.simps [of s n])
      ultimately show ?thesis
        using its(2) by blast
    next
      case set: True
      with True "1.prems" have isf: "is_set s n = Inr True"
        by (simp add: is_set_def)
      from set True "1.prems" have nin: "n \<in> cpus s"
        by (simp add: cpus_def)
      from skip_set_spec [of "n + 1" s] True "1.prems" obtain n' where
        n': "skip_set s (n + 1) = Inr n'" "n + 1 \<le> n'" "n' \<le> max_cpus s"
          "\<forall>j. n + 1 \<le> j \<and> j < n' \<longrightarrow> j \<in> cpus s" "n' \<notin> cpus s"
        by auto
      define x where "x = (if n \<noteq> n' - 1
        then Range (to_string_int n) (to_string_int (n' - 1)) else Single (to_string_int n))"
      define result' where "result' = (if first_item then result else result @ '','') @
        to_string_int n @ (if n \<noteq> n' - 1 then ''-'' @ to_string_int (n' - 1) else [])"
      have r': "result' = (if first_item then result else result @ '','') @ item_string x"
        by (simp add: result'_def x_def)
      have unfold: "to_string_loop s n first_item result = to_string_loop s (n' + 1) False result'"
        using True isf n'(1) by (simp add: to_string_loop.simps [of s n] result'_def)
      from "1.IH"(1) [OF True isf _ n'(1)] "1.prems" n'(2) obtain its where
        its: "to_string_loop s (n' + 1) False result' = Inr (result' @ and_more its)"
          "list_all (valid_item (max_cpus s)) its"
          "\<Union> (valid_cpus ` set its) = {j \<in> cpus s. n' + 1 \<le> j}"
        by (auto simp: result'_def)
      have p: "decimal (to_string_int n)" "dec_val (to_string_int n) = n"
        "decimal (to_string_int (n' - 1))" "dec_val (to_string_int (n' - 1)) = n' - 1"
        using to_string_int_props [of n] to_string_int_props [of "n' - 1"] "1.prems" n'(2)
        by simp_all
      have vx: "valid_item (max_cpus s) x"
        using p n'(2,3) True by (simp add: x_def)
      have cx: "valid_cpus x = {n .. n' - 1}"
        using p n'(2) by (auto simp: x_def)
      have cover: "{n .. n' - 1} \<union> {j \<in> cpus s. n' + 1 \<le> j} = {j \<in> cpus s. n \<le> j}"
      proof (rule set_eqI)
        fix j
        have "j \<in> cpus s" if "n \<le> j" "j \<le> n' - 1"
        proof (cases "j = n")
          case True
          with nin show ?thesis by simp
        next
          case False
          with that n'(4) show ?thesis by simp
        qed
        moreover have "j \<noteq> n'" if "j \<in> cpus s"
          using that n'(5) by auto
        ultimately show "j \<in> {n .. n' - 1} \<union> {j \<in> cpus s. n' + 1 \<le> j} \<longleftrightarrow>
            j \<in> {j \<in> cpus s. n \<le> j}"
          using n'(2) by auto
      qed
      have "to_string_loop s n first_item result =
          Inr (result @ (if first_item then list_string (x # its) else and_more (x # its)))"
        using unfold its(1) by (simp add: r' list_string_Cons and_more_def)
      moreover have "list_all (valid_item (max_cpus s)) (x # its)"
        using vx its(2) by simp
      moreover have "\<Union> (valid_cpus ` set (x # its)) = {j \<in> cpus s. n \<le> j}"
        using cx its(3) cover by simp
      ultimately show ?thesis
        by blast
    qed
  qed
qed


subsection \<open>The language of \<open>parse\<close>\<close>

lemma max_cpus_zero [simp]: "max_cpus (zero s) = max_cpus s"
  by (simp add: max_cpus_def)

lemma parse_empty: "parse this [] = Inr (zero this)"
  by (simp add: parse_def parse_loop_unconverted strtoul_def peek_def)

lemma parse_accepted:
  assumes "list_all (accepted_item (max_cpus this)) its"
  shows "\<exists>r. parse this (list_string its) = Inr r \<and> length r = length this \<and>
     cpus r = \<Union> (item_cpus ` set its)"
proof (cases "its = []")
  case True
  then show ?thesis
    by (simp add: parse_empty)
next
  case False
  from assms have "list_all (accepted_item (max_cpus (zero this))) its"
    by simp
  from parse_loop_complete [OF False this, of "list_string its"] show ?thesis
    by (simp add: parse_def)
qed


lemma parse_valid:
  assumes "list_all (valid_item (max_cpus this)) its" and "max_cpus this \<le> 2147483647"
  shows "\<exists>r. parse this (list_string its) = Inr r \<and> length r = length this \<and>
     cpus r = \<Union> (valid_cpus ` set its)"
proof -
  from assms(2) have "max_cpus this \<le> 2 ^ 64"
    by simp
  from valid_items_accepted [OF assms(1) this] parse_accepted [of this its]
  show ?thesis by simp
qed

lemma to_string_spec:
  "\<exists>its. to_string m = Inr (list_string its) \<and> list_all (valid_item (max_cpus m)) its \<and>
     \<Union> (valid_cpus ` set its) = cpus m"
proof -
  from to_string_loop_spec [of 0 m True "[]"] obtain its where
    its: "to_string_loop m 0 True [] = Inr (list_string its)"
      "list_all (valid_item (max_cpus m)) its"
      "\<Union> (valid_cpus ` set its) = {j \<in> cpus m. 0 \<le> j}"
    by auto
  have "{j \<in> cpus m. 0 \<le> j} = cpus m"
    by (auto simp: cpus_def)
  with its show ?thesis
    by (auto simp: to_string_def)
qed

lemma to_string_empty:
  assumes "empty m"
  shows "to_string m = Inr []"
proof -
  from to_string_spec [of m] obtain its where
    its: "to_string m = Inr (list_string its)" "list_all (valid_item (max_cpus m)) its"
      "\<Union> (valid_cpus ` set its) = cpus m"
    by blast
  from assms have "cpus m = {}"
    by (simp add: empty_def count_zero_iff [symmetric])
  with its(3) have "\<forall>x \<in> set its. valid_cpus x = {}"
    by simp
  moreover from its(2) have "\<forall>x \<in> set its. valid_cpus x \<noteq> {}"
    by (auto simp: list_all_iff dest: valid_cpus_nonempty)
  ultimately have "its = []"
    by (cases its) auto
  with its(1) show ?thesis by simp
qed

lemma parse_to_string:
  assumes "length this = length m" and "max_cpus m \<le> 2147483647"
  shows "\<exists>str. to_string m = Inr str \<and> parse this str = Inr m"
proof -
  from to_string_spec [of m] obtain its where
    its: "to_string m = Inr (list_string its)" "list_all (valid_item (max_cpus m)) its"
      "\<Union> (valid_cpus ` set its) = cpus m"
    by blast
  from assms(1) have mx: "max_cpus this = max_cpus m"
    by (simp add: max_cpus_def)
  with its(2) assms(2) parse_valid [of this its] obtain r where
    r: "parse this (list_string its) = Inr r" "length r = length this"
      "cpus r = \<Union> (valid_cpus ` set its)"
    by auto
  from r(2,3) its(3) assms(1) have "r = m"
    by (intro cpus_inj) simp_all
  with r(1) its(1) show ?thesis by simp
qed


subsection \<open>Strings that \<open>parse\<close> rejects\<close>










subsection \<open>Set algebra\<close>

lemma cpus_map2:
  assumes "length a = length b"
  shows "cpus (map2 f a b) = {n. 0 \<le> n \<and> n < max_cpus a \<and> f (a ! nat n) (b ! nat n)}"
  using assms by (auto simp: cpus_def max_cpus_def)

lemma cpu_or_spec:
  assumes "length a = length b"
  shows "\<exists>r. cpu_or a b = Inr r \<and> length r = length a \<and> cpus r = cpus a \<union> cpus b"
proof -
  from assms have "cpus (map2 (\<lambda>a b. a \<or> b) a b) = cpus a \<union> cpus b"
    by (auto simp: cpus_def max_cpus_def)
  with assms show ?thesis
    by (simp add: cpu_or_def)
qed

lemma cpu_and_spec:
  assumes "length a = length b"
  shows "\<exists>r. cpu_and a b = Inr r \<and> length r = length a \<and> cpus r = cpus a \<inter> cpus b"
proof -
  from assms have "cpus (map2 (\<lambda>a b. a \<and> b) a b) = cpus a \<inter> cpus b"
    by (auto simp: cpus_def max_cpus_def)
  with assms show ?thesis
    by (simp add: cpu_and_def)
qed

lemma cpu_xor_spec:
  assumes "length a = length b"
  shows "\<exists>r. cpu_xor a b = Inr r \<and> length r = length a \<and>
     cpus r = (cpus a - cpus b) \<union> (cpus b - cpus a)"
proof -
  from assms have "cpus (map2 (\<lambda>a b. a \<noteq> b) a b) = (cpus a - cpus b) \<union> (cpus b - cpus a)"
    by (auto simp: cpus_def max_cpus_def)
  with assms show ?thesis
    by (simp add: cpu_xor_def)
qed

lemma xor_and_difference:
  assumes "length L = length m"
  shows "\<exists>x r. cpu_xor L m = Inr x \<and> cpu_and x L = Inr r \<and> length r = length L \<and>
     cpus r = cpus L - cpus m"
proof -
  from cpu_xor_spec [OF assms] obtain x where
    x: "cpu_xor L m = Inr x" "length x = length L"
      "cpus x = (cpus L - cpus m) \<union> (cpus m - cpus L)"
    by blast
  from cpu_and_spec [OF x(2)] obtain r where
    r: "cpu_and x L = Inr r" "length r = length x" "cpus r = cpus x \<inter> cpus L"
    by blast
  from x(3) r(3) have "cpus r = cpus L - cpus m"
    by auto
  with x r show ?thesis
    by auto
qed

lemma subset_test:
  assumes "length s = length a"
  shows "\<exists>both. cpu_and s a = Inr both \<and> cpu_equal both s = Inr (cpus s \<subseteq> cpus a)"
proof -
  from cpu_and_spec [OF assms] obtain both where
    b: "cpu_and s a = Inr both" "length both = length s" "cpus both = cpus s \<inter> cpus a"
    by blast
  have "both = s \<longleftrightarrow> cpus s \<subseteq> cpus a"
  proof
    assume "both = s"
    with b(3) show "cpus s \<subseteq> cpus a" by auto
  next
    assume "cpus s \<subseteq> cpus a"
    with b(3) have "cpus both = cpus s" by auto
    with b(2) show "both = s" by (rule cpus_inj)
  qed
  with b show ?thesis
    by (simp add: cpu_equal_def)
qed

subsection \<open>What is written to the ledger\<close>

lemma valid_chars:
  "list_all (valid_item mx) its \<Longrightarrow> c \<in> set (list_string its) \<Longrightarrow>
   isdigit c \<or> c = CHR '','' \<or> c = CHR ''-''"
proof (induction its rule: list_string.induct)
  case 1
  then show ?case by simp
next
  case (2 x)
  then show ?case
    by (cases x) (auto simp: decimal_def list_all_iff)
next
  case (3 x y ys)
  then show ?case
    by (cases x) (auto simp: decimal_def list_all_iff)
qed

lemma first_word_id:
  assumes "\<forall>c \<in> set s. \<not> isspace c"
  shows "first_word s = s"
proof -
  from assms have "dropWhile isspace s = s"
    by (cases s) auto
  moreover from assms have "takeWhile (\<lambda>c. \<not> isspace c) s = s"
    by (simp add: takeWhile_eq_all_conv)
  ultimately show ?thesis
    by (simp add: first_word_def)
qed

lemma to_string_roundtrip_word:
  assumes "max_cpus m \<le> 2147483647"
  shows "\<exists>str. to_string m = Inr str \<and> first_word str = str \<and>
     CPUSet_of_string (length m) str = Inr m \<and> (str = [] \<longleftrightarrow> cpus m = {})"
proof -
  from to_string_spec [of m] obtain its where
    its: "to_string m = Inr (list_string its)" "list_all (valid_item (max_cpus m)) its"
      "\<Union> (valid_cpus ` set its) = cpus m"
    by blast
  have "\<not> isspace c" if "c \<in> set (list_string its)" for c
    using valid_chars [OF its(2) that] isdigit_not_special(1) [of c]
    by (auto simp: isspace_def)
  then have fw: "first_word (list_string its) = list_string its"
    by (intro first_word_id) simp
  have len: "length (CPUSet_new (length m)) = length m"
    by (simp add: CPUSet_new_def)
  from parse_to_string [OF len assms] its(1)
  have rt: "CPUSet_of_string (length m) (list_string its) = Inr m"
    by (simp add: CPUSet_of_string_def)
  have "list_string its = [] \<longleftrightarrow> cpus m = {}"
  proof
    assume e: "list_string its = []"
    have "its = []"
    proof (cases its)
      case Nil
      then show ?thesis .
    next
      case (Cons x ys)
      with its(2) have "valid_item (max_cpus m) x"
        by simp
      then have "item_string x \<noteq> []"
        by (cases x) (auto simp: decimal_def)
      with Cons e show ?thesis
        by (simp add: list_string_Cons)
    qed
    with its(3) show "cpus m = {}" by simp
  next
    assume "cpus m = {}"
    with its(3) have "\<forall>x \<in> set its. valid_cpus x = {}"
      by simp
    moreover from its(2) have "\<forall>x \<in> set its. valid_cpus x \<noteq> {}"
      by (auto simp: list_all_iff dest: valid_cpus_nonempty)
    ultimately have "its = []"
      by (cases its) auto
    then show "list_string its = []" by simp
  qed
  with its(1) fw rt show ?thesis
    by blast
qed

lemma ledger_write_file:
  assumes "\<not> fails w (Read cpuset_cpus_exclusive)" and "str \<noteq> []" and "first_word str = str"
  shows "ledger (write_file cpuset_cpus_exclusive str w) = CPUSet_of_string (getMaxCPUs w) str"
  using assms by (simp add: ledger_def sysfs_read_def write_file_def)


lemma parse_loop_length: "parse_loop str s start pos = Inr r \<Longrightarrow> length r = length s"
proof (induction "length pos" arbitrary: pos s start rule: less_induct)
  case less
  show ?case
  proof (cases "snd (strtoul pos) = pos")
    case True
    with less.prems show ?thesis
      by (simp add: parse_loop_unconverted split: if_splits)
  next
    case False
    define endp where "endp = snd (strtoul pos)"
    from False have ne: "endp \<noteq> pos"
      by (simp add: endp_def)
    from less.prems ne obtain s1 start1 where
      it: "parse_item s start (fst (strtoul pos)) (peek endp) = Inr (s1, start1)"
      and res: "(if NUL = peek endp then Inr s1 else parse_loop str s1 start1 (tl endp)) = Inr r"
      by (auto simp: parse_loop.simps [of str s start pos] Let_def endp_def
          split: if_splits sum.splits)
    from parse_item_length [OF it] have l1: "length s1 = length s" .
    show ?thesis
    proof (cases "NUL = peek endp")
      case True
      with res l1 show ?thesis by simp
    next
      case False
      then have "endp \<noteq> []"
        by (auto simp: peek_def)
      then have "length (tl endp) < length endp"
        by simp
      also have "length endp \<le> length pos"
        unfolding endp_def by (rule strtoul_length)
      finally have "length (tl endp) < length pos" .
      from less.hyps [OF this] res False l1 show ?thesis
        by simp
    qed
  qed
qed

lemma CPUSet_of_string_length: "CPUSet_of_string mx str = Inr r \<Longrightarrow> length r = mx"
  by (auto simp: CPUSet_of_string_def parse_def CPUSet_new_def dest: parse_loop_length)

lemma ledger_length: "ledger w = Inr E \<Longrightarrow> length E = getMaxCPUs w"
  by (auto simp: ledger_def split: sum.splits dest: CPUSet_of_string_length)

lemma effective_length: "effective w = Inr A \<Longrightarrow> length A = getMaxCPUs w"
  by (auto simp: effective_def split: sum.splits dest: CPUSet_of_string_length)

lemma ledger_after_write:
  assumes io: "slice_io_ok w" and mx: "int (getMaxCPUs w) \<le> 2147483647"
    and lr: "length r = getMaxCPUs w" and ts: "to_string r = Inr str"
    and old: "cpus r = {} \<Longrightarrow> ledger w = Inr r"
  shows "ledger (write_file cpuset_cpus_exclusive str w) = Inr r"
proof -
  from mx lr have "max_cpus r \<le> 2147483647"
    by (simp add: max_cpus_def)
  from to_string_roundtrip_word [OF this] ts lr have
    rt: "first_word str = str" "CPUSet_of_string (getMaxCPUs w) str = Inr r"
      "str = [] \<longleftrightarrow> cpus r = {}"
    by auto
  show ?thesis
  proof (cases "str = []")
    case True
    with rt(3) old show ?thesis
      by (simp add: write_file_def)
  next
    case False
    from io have "\<not> fails w (Read cpuset_cpus_exclusive)"
      by (simp add: slice_io_ok_def)
    from ledger_write_file [OF this False rt(1)] rt(2) show ?thesis
      by simp
  qed
qed

lemma reserve_result:
  assumes io: "slice_io_ok w" and ls: "length s = getMaxCPUs w"
    and le: "ledger w = Inr E" and la: "effective w = Inr A"
  shows "reserve s w =
     (if cpus s \<subseteq> cpus A then
        (case cpu_or E s of
           Inl e \<Rightarrow> (Inl e, w)
         | Inr r \<Rightarrow>
             (case to_string r of
                Inl e \<Rightarrow> (Inl e, w)
              | Inr str \<Rightarrow> (Inr (), write_file cpuset_cpus_exclusive str w)))
      else (Inl Runtime_error, w))"
proof -
  from io have lock: "FileLock cpuset_cpus_exclusive w = Inr ()"
    and wr: "\<not> fails w (Write cpuset_cpus_exclusive)"
    by (simp_all add: slice_io_ok_def FileLock_def)
  from io le obtain str where r1: "sysfs_read cpuset_cpus_exclusive w = Inr str"
    "CPUSet_of_string (getMaxCPUs w) str = Inr E"
    by (auto simp: ledger_def split: sum.splits)
  from io la obtain str' where r2: "sysfs_read cpuset_cpus_effective w = Inr str'"
    "CPUSet_of_string (getMaxCPUs w) str' = Inr A"
    by (auto simp: effective_def split: sum.splits)
  from effective_length [OF la] ls have "length s = length A"
    by simp
  from subset_test [OF this] obtain both where
    b: "cpu_and s A = Inr both" "cpu_equal both s = Inr (cpus s \<subseteq> cpus A)"
    by blast
  show ?thesis
    using lock r1 r2 b wr
    by (simp add: reserve_def sysfs_write_set_def sysfs_write_def split: sum.splits)
qed

lemma release_result:
  assumes io: "slice_io_ok w" and le: "ledger w = Inr L"
  shows "release m w =
     (case cpu_xor L m of
        Inl e \<Rightarrow> (Inl e, w)
      | Inr x \<Rightarrow>
          (case cpu_and x L of
             Inl e \<Rightarrow> (Inl e, w)
           | Inr r \<Rightarrow>
               (case to_string r of
                  Inl e \<Rightarrow> (Inl e, w)
                | Inr str \<Rightarrow> (Inr (), write_file cpuset_cpus_exclusive str w))))"
proof -
  from io have lock: "FileLock cpuset_cpus_exclusive w = Inr ()"
    and wr: "\<not> fails w (Write cpuset_cpus_exclusive)"
    by (simp_all add: slice_io_ok_def FileLock_def)
  from io le obtain str where r1: "sysfs_read cpuset_cpus_exclusive w = Inr str"
    "CPUSet_of_string (getMaxCPUs w) str = Inr L"
    by (auto simp: ledger_def split: sum.splits)
  show ?thesis
    using lock r1 wr
    by (simp add: release_def sysfs_write_set_def sysfs_write_def split: sum.splits)
qed

lemma to_string_total: "\<exists>str. to_string m = Inr str"
  using to_string_spec [of m] by blast


subsection \<open>Reading a number from a stream\<close>

lemma unread_Cons:
  assumes "unread i = c # rest"
  shows "gpos i < length (buf i)" and "buf i ! gpos i = c"
    and "unread (i\<lparr>gpos := gpos i + 1\<rparr>) = rest"
proof -
  from assms have d: "drop (gpos i) (buf i) = c # rest"
    by (simp add: unread_def)
  then show lt: "gpos i < length (buf i)"
    by (cases "gpos i < length (buf i)") auto
  from Cons_nth_drop_Suc [OF lt] d
  have e: "buf i ! gpos i # drop (Suc (gpos i)) (buf i) = c # rest"
    by simp
  from e show "buf i ! gpos i = c"
    by simp
  from e show "unread (i\<lparr>gpos := gpos i + 1\<rparr>) = rest"
    by (simp add: unread_def)
qed

lemma unread_advance: "unread i = xs @ ys \<Longrightarrow> unread (i\<lparr>gpos := gpos i + length xs\<rparr>) = ys"
proof -
  assume "unread i = xs @ ys"
  then have "drop (length xs) (drop (gpos i) (buf i)) = ys"
    by (simp add: unread_def)
  then show ?thesis
    by (simp add: unread_def add.commute)
qed

lemma sentry_nonspace:
  assumes "good i" and "unread i = c # rest" and "\<not> isspace c"
  shows "sentry i = (True, i)"
  using assms by (simp add: sentry_def)

lemma extract_int_decimal:
  assumes g: "good i" and u: "unread i = ds @ tail" and d: "decimal ds"
    and t: "\<not> isdigit (peek tail)" and v: "dec_val ds \<le> INT_MAX"
  shows "extract_int i = (dec_val ds, i\<lparr>gpos := gpos i + length ds, eofbit := (tail = [])\<rparr>)"
proof -
  from d obtain c ds' where ds: "ds = c # ds'" and c: "isdigit c"
    and all: "list_all isdigit ds"
    by (cases ds) (auto simp: decimal_def)
  from u ds have u': "unread i = c # (ds' @ tail)"
    by simp
  from sentry_nonspace [OF g u'] c have s: "sentry i = (True, i)"
    by (simp add: isdigit_not_special(1))
  from c have pk: "peek (ds @ tail) \<noteq> CHR ''-''" "peek (ds @ tail) \<noteq> CHR ''+''"
    using isdigit_not_special [of c] by (simp_all add: ds peek_def)
  have tk: "takeWhile isdigit (ds @ tail) = ds" and dr: "dropWhile isdigit (ds @ tail) = tail"
    using takeWhile_digits_rest [OF all t] by simp_all
  have nn: "0 \<le> dec_val ds"
    using all by (rule dec_val_nonneg)
  then have lo: "\<not> dec_val ds < INT_MIN"
    by (simp add: INT_MIN_def)
  from ds have ne: "ds \<noteq> []"
    by simp
  show ?thesis
    using s u pk tk dr lo v ne by (simp add: extract_int_def Let_def)
qed

lemma get_Cons:
  assumes "good i" and "unread i = c # rest"
  shows "get i = (Some c, i\<lparr>gpos := gpos i + 1\<rparr>)"
  using assms unread_Cons(1,2) [OF assms(2)] by (simp add: get_def)

lemma extract_int_eof:
  assumes "good i" and "unread i = []"
  shows "failbit (snd (extract_int i))"
  using assms by (simp add: extract_int_def sentry_def)

subsection \<open>One number in the loop of the stream parser\<close>

lemma extract_loop_number:
  assumes g: "good i" and u: "unread i = ds @ tail" and d: "decimal ds"
    and v: "dec_val ds < max_cpus s" and mx: "max_cpus s \<le> INT_MAX"
    and t: "tail = [] \<or> (\<not> isdigit (hd tail) \<and> hd tail \<noteq> CHR ''-'')"
    and it: "parse_item s start (dec_val ds) CHR '','' = Inr (s', start')"
  shows "extract_loop s start i =
     (if tail = [] then (Inr s', i\<lparr>gpos := gpos i + length ds, eofbit := True\<rparr>)
      else if hd tail = CHR '','' then
        extract_loop s' (- 1) (i\<lparr>gpos := gpos i + length ds + 1\<rparr>)
      else (Inr s', i\<lparr>gpos := gpos i + length ds\<rparr>))"
proof -
  from t have nd: "\<not> isdigit (peek tail)"
    by (cases tail) (auto simp: peek_def)
  from v mx have "dec_val ds \<le> INT_MAX"
    by simp
  from extract_int_decimal [OF g u d nd this]
  have ei: "extract_int i = (dec_val ds, i\<lparr>gpos := gpos i + length ds, eofbit := (tail = [])\<rparr>)" .
  define i1 where "i1 = i\<lparr>gpos := gpos i + length ds, eofbit := (tail = [])\<rparr>"
  from g have nf: "\<not> failbit i1" and fe: "\<not> failbit i" "\<not> eofbit i"
    by (simp_all add: i1_def good_def)
  from d have nn: "0 \<le> dec_val ds"
    by (simp add: decimal_def dec_val_nonneg)
  from it have st': "start' = - 1"
    by (auto simp: parse_item_def split: if_splits sum.splits)
  have item: "(if - 1 = start then
        (case set_cpu s (dec_val ds) of Inl e \<Rightarrow> Inl e | Inr s' \<Rightarrow> Inr (s', start, j))
      else if start > dec_val ds then Inr (s, start, j\<lparr>failbit := True\<rparr>)
      else
        (case set_range s start (dec_val ds) of
           Inl e \<Rightarrow> Inl e
         | Inr s' \<Rightarrow> Inr (s', - 1, j))) = Inr (s', - 1, j)" for j :: istream
    using it by (auto simp: parse_item_def split: if_splits sum.splits)
  show ?thesis
  proof (cases tail)
    case Nil
    then have e1: "eofbit i1" and i1': "i1 = i\<lparr>gpos := gpos i + length ds, eofbit := True\<rparr>"
      by (simp_all add: i1_def)
    have ng: "\<not> good i1"
      using e1 by (simp add: good_def)
    have ei': "extract_int i = (dec_val ds, i1)"
      using ei by (simp add: i1_def)
    have "extract_loop s start i = extract_loop s' (- 1) i1"
      using g ei' nf nn v e1 item [of i1]
      by (simp add: extract_loop.simps [of s start i] Let_def)
    also have "\<dots> = (Inr s', i1)"
      using ng by (simp add: extract_loop.simps [of s' "- 1" i1])
    finally show ?thesis
      using Nil i1' by simp
  next
    case (Cons c rest)
    with t have c: "\<not> isdigit c" "c \<noteq> CHR ''-''"
      by simp_all
    from Cons have e1: "\<not> eofbit i1" and i1': "i1 = i\<lparr>gpos := gpos i + length ds\<rparr>"
      using fe by (simp_all add: i1_def)
    have g1: "good i1"
      using e1 nf by (simp add: good_def)
    from unread_advance [OF u] Cons have u1: "unread i1 = c # rest"
      by (simp add: i1' unread_def)
    define i2 where "i2 = i1\<lparr>gpos := Suc (gpos i1)\<rparr>"
    from get_Cons [OF g1 u1] have gt: "get i1 = (Some c, i2)"
      by (simp add: i2_def)
    have nf2: "\<not> failbit i2"
      using nf by (simp add: i2_def)
    have ei': "extract_int i = (dec_val ds, i1)"
      using ei by (simp add: i1_def)
    have unf: "extract_loop s start i =
        (if c \<noteq> CHR '','' then (Inr s', unget i2) else extract_loop s' (- 1) i2)"
      using g ei' nf nn v e1 gt nf2 c item [of i2]
      by (simp add: extract_loop.simps [of s start i] Let_def)
    have ug: "unget i2 = i\<lparr>gpos := gpos i + length ds\<rparr>"
      using fe by (simp add: unget_def i2_def i1')
    have i2': "i2 = i\<lparr>gpos := gpos i + length ds + 1\<rparr>"
      by (simp add: i2_def i1')
    show ?thesis
      using unf ug i2' Cons by simp
  qed
qed

lemma extract_loop_hyphen:
  assumes g: "good i" and u: "unread i = ds @ CHR ''-'' # rest" and d: "decimal ds"
    and v: "dec_val ds < max_cpus s" and mx: "max_cpus s \<le> INT_MAX"
  shows "extract_loop s (- 1) i =
     extract_loop s (dec_val ds) (i\<lparr>gpos := gpos i + length ds + 1\<rparr>)"
proof -
  have nd: "\<not> isdigit (peek (CHR ''-'' # rest))"
    by (simp add: peek_def isdigit_def)
  from v mx have "dec_val ds \<le> INT_MAX"
    by simp
  from extract_int_decimal [OF g u d nd this]
  have ei: "extract_int i = (dec_val ds, i\<lparr>gpos := gpos i + length ds, eofbit := False\<rparr>)"
    by simp
  define i1 where "i1 = i\<lparr>gpos := gpos i + length ds, eofbit := False\<rparr>"
  from g have nf: "\<not> failbit i1" and e1: "\<not> eofbit i1"
    by (simp_all add: i1_def good_def)
  then have g1: "good i1"
    by (simp add: good_def)
  from d have nn: "0 \<le> dec_val ds"
    by (simp add: decimal_def dec_val_nonneg)
  from unread_advance [OF u] have u1: "unread i1 = CHR ''-'' # rest"
    by (simp add: i1_def unread_def)
  define i2 where "i2 = i1\<lparr>gpos := Suc (gpos i1)\<rparr>"
  from get_Cons [OF g1 u1] have gt: "get i1 = (Some CHR ''-'', i2)"
    by (simp add: i2_def)
  have nf2: "\<not> failbit i2"
    using nf by (simp add: i2_def)
  have ei': "extract_int i = (dec_val ds, i1)"
    using ei by (simp add: i1_def)
  have "extract_loop s (- 1) i = extract_loop s (dec_val ds) i2"
    using g ei' nf nn v e1 gt nf2
    by (simp add: extract_loop.simps [of s "- 1" i] Let_def)
  moreover from g have "i2 = i\<lparr>gpos := gpos i + length ds + 1\<rparr>"
    by (simp add: i2_def i1_def good_def)
  ultimately show ?thesis
    by simp
qed


subsection \<open>A valid list in the stream parser\<close>

lemma valid_list_head:
  assumes "its \<noteq> []" and "list_all (valid_item mx) its"
  shows "\<exists>d r. list_string its = d # r \<and> isdigit d"
proof -
  from assms obtain x ys where its: "its = x # ys" and v: "valid_item mx x"
    by (cases its) auto
  from v obtain d r where "item_string x = d # r" "isdigit d"
    by (cases x) (auto simp: decimal_def neq_Nil_conv)
  with its show ?thesis
    by (simp add: list_string_Cons)
qed

lemma extract_loop_valid:
  "its \<noteq> [] \<Longrightarrow> list_all (valid_item (max_cpus s)) its \<Longrightarrow> max_cpus s \<le> INT_MAX \<Longrightarrow>
   good i \<Longrightarrow> unread i = list_string its @ tail \<Longrightarrow>
   tail = [] \<or> (\<not> isdigit (hd tail) \<and> hd tail \<noteq> CHR ''-'' \<and> hd tail \<noteq> CHR '','') \<Longrightarrow>
   \<exists>s'. extract_loop s (- 1) i =
       (Inr s', i\<lparr>gpos := gpos i + length (list_string its), eofbit := (tail = [])\<rparr>) \<and>
     length s' = length s \<and> cpus s' = cpus s \<union> \<Union> (valid_cpus ` set its)"
proof (induction its arbitrary: s i)
  case Nil
  then show ?case by simp
next
  case (Cons x ys)
  note mx = \<open>max_cpus s \<le> INT_MAX\<close>
  note tl = \<open>tail = [] \<or> (\<not> isdigit (hd tail) \<and> hd tail \<noteq> CHR ''-'' \<and> hd tail \<noteq> CHR '','')\<close>
  have last_number: "\<exists>s'. extract_loop s start j =
        (Inr s', j\<lparr>gpos := gpos j + length (ds @ and_more ys), eofbit := (tail = [])\<rparr>) \<and>
      length s' = length s \<and> cpus s' = cpus s1 \<union> \<Union> (valid_cpus ` set ys)"
    if gj: "good j" and uj: "unread j = ds @ and_more ys @ tail" and d: "decimal ds"
      and v: "dec_val ds < max_cpus s"
      and it: "parse_item s start (dec_val ds) CHR '','' = Inr (s1, - 1)"
      and l1: "length s1 = length s"
    for j start s1 ds
  proof -
    have cond: "and_more ys @ tail = [] \<or>
        (\<not> isdigit (hd (and_more ys @ tail)) \<and> hd (and_more ys @ tail) \<noteq> CHR ''-'')"
      using tl by (cases "ys = []") (auto simp: and_more_def isdigit_def)
    note step = extract_loop_number [OF gj uj d v mx cond it]
    from gj have ej: "\<not> eofbit j"
      by (simp add: good_def)
    show ?thesis
    proof (cases "ys = []")
      case True
      then have m: "and_more ys = []"
        by (simp add: and_more_def)
      show ?thesis
      proof (cases "tail = []")
        case True
        with step m l1 \<open>ys = []\<close> show ?thesis
          by simp
      next
        case False
        with tl have "hd tail \<noteq> CHR '',''"
          by simp
        moreover have "j\<lparr>gpos := gpos j + length ds\<rparr> =
            j\<lparr>gpos := gpos j + length ds, eofbit := False\<rparr>"
          using ej by simp
        ultimately show ?thesis
          using step m l1 False \<open>ys = []\<close> by simp
      qed
    next
      case False
      then have m: "and_more ys = CHR '','' # list_string ys"
        by (simp add: and_more_def)
      define j' where "j' = j\<lparr>gpos := gpos j + length ds + 1\<rparr>"
      from step m have st: "extract_loop s start j = extract_loop s1 (- 1) j'"
        by (simp add: j'_def)
      from l1 have m1: "max_cpus s1 = max_cpus s"
        by (simp add: max_cpus_def)
      have v': "list_all (valid_item (max_cpus s1)) ys"
        using Cons.prems(2) m1 by simp
      have g': "good j'"
        using gj by (simp add: j'_def good_def)
      from uj m have "unread j = (ds @ '','') @ list_string ys @ tail"
        by simp
      from unread_advance [OF this] have u': "unread j' = list_string ys @ tail"
        by (simp add: j'_def)
      from Cons.IH [OF False v' _ g' u' tl] mx m1 obtain s' where
        s': "extract_loop s1 (- 1) j' =
            (Inr s', j'\<lparr>gpos := gpos j' + length (list_string ys), eofbit := (tail = [])\<rparr>)"
          "length s' = length s1" "cpus s' = cpus s1 \<union> \<Union> (valid_cpus ` set ys)"
        by auto
      have "j'\<lparr>gpos := gpos j' + length (list_string ys), eofbit := (tail = [])\<rparr> =
          j\<lparr>gpos := gpos j + length (ds @ and_more ys), eofbit := (tail = [])\<rparr>"
        by (simp add: j'_def m)
      with st s' l1 show ?thesis
        by simp
    qed
  qed
  show ?case
  proof (cases x)
    case (Single a)
    with Cons.prems(2) have a: "decimal a" "dec_val a < max_cpus s"
      by simp_all
    then have nn: "0 \<le> dec_val a"
      by (simp add: decimal_def dec_val_nonneg)
    from parse_item_single [OF _ nn a(2), of "CHR '',''"] obtain s1 where
      s1: "parse_item s (- 1) (dec_val a) CHR '','' = Inr (s1, - 1)" "length s1 = length s"
        "cpus s1 = insert (dec_val a) (cpus s)"
      by auto
    have u: "unread i = a @ and_more ys @ tail"
      using Cons.prems(5) Single by (simp add: list_string_Cons)
    from last_number [OF Cons.prems(4) u a s1(1,2)] obtain s' where
      s': "extract_loop s (- 1) i =
          (Inr s', i\<lparr>gpos := gpos i + length (a @ and_more ys), eofbit := (tail = [])\<rparr>)"
        "length s' = length s" "cpus s' = cpus s1 \<union> \<Union> (valid_cpus ` set ys)"
      by blast
    have "cpus s' = cpus s \<union> \<Union> (valid_cpus ` set (x # ys))"
      using s'(3) s1(3) Single by auto
    with s'(1,2) Single show ?thesis
      by (simp add: list_string_Cons)
  next
    case (Range a b)
    with Cons.prems(2) have a: "decimal a" and b: "decimal b"
      and le: "dec_val a \<le> dec_val b" and lt: "dec_val b < max_cpus s"
      by simp_all
    from a have nn: "0 \<le> dec_val a"
      by (simp add: decimal_def dec_val_nonneg)
    from le lt have lta: "dec_val a < max_cpus s"
      by simp
    have u: "unread i = a @ CHR ''-'' # (b @ and_more ys @ tail)"
      using Cons.prems(5) Range by (simp add: list_string_Cons)
    define i1 where "i1 = i\<lparr>gpos := gpos i + length a + 1\<rparr>"
    from extract_loop_hyphen [OF Cons.prems(4) u a lta mx]
    have h: "extract_loop s (- 1) i = extract_loop s (dec_val a) i1"
      by (simp add: i1_def)
    have g1: "good i1"
      using Cons.prems(4) by (simp add: i1_def good_def)
    from u have "unread i = (a @ ''-'') @ b @ and_more ys @ tail"
      by simp
    from unread_advance [OF this] have u1: "unread i1 = b @ and_more ys @ tail"
      by (simp add: i1_def)
    from parse_item_range [OF _ nn le lt, of "CHR '',''"] obtain s1 where
      s1: "parse_item s (dec_val a) (dec_val b) CHR '','' = Inr (s1, - 1)" "length s1 = length s"
        "cpus s1 = cpus s \<union> {dec_val a .. dec_val b}"
      by auto
    from last_number [OF g1 u1 b lt s1(1,2)] obtain s' where
      s': "extract_loop s (dec_val a) i1 =
          (Inr s', i1\<lparr>gpos := gpos i1 + length (b @ and_more ys), eofbit := (tail = [])\<rparr>)"
        "length s' = length s" "cpus s' = cpus s1 \<union> \<Union> (valid_cpus ` set ys)"
      by blast
    have "i1\<lparr>gpos := gpos i1 + length (b @ and_more ys), eofbit := (tail = [])\<rparr> =
        i\<lparr>gpos := gpos i + length (list_string (x # ys)), eofbit := (tail = [])\<rparr>"
      by (simp add: i1_def Range list_string_Cons)
    moreover have "cpus s' = cpus s \<union> \<Union> (valid_cpus ` set (x # ys))"
      using s'(3) s1(3) Range by auto
    ultimately show ?thesis
      using h s'(1,2) by simp
  qed
qed


subsection \<open>The stream parser as a whole\<close>

lemma extract_cpuset_valid:
  assumes ne: "its \<noteq> []" and v: "list_all (valid_item (int (length target))) its"
    and mx: "int (length target) \<le> INT_MAX"
    and tl: "tail = [] \<or> (\<not> isdigit (hd tail) \<and> hd tail \<noteq> CHR ''-'' \<and> hd tail \<noteq> CHR '','')"
  shows "\<exists>r. parse (CPUSet_new (length target)) (list_string its) = Inr r \<and>
     extract_cpuset target (istream_of (list_string its @ tail)) =
       (Inr r, \<lparr>buf = list_string its @ tail, gpos = length (list_string its),
          eofbit = (tail = []), failbit = False\<rparr>)"
proof -
  let ?new = "CPUSet_new (length target)"
  let ?i = "istream_of (list_string its @ tail)"
  have mn: "max_cpus ?new = int (length target)"
    by (simp add: max_cpus_def CPUSet_new_def)
  from valid_list_head [OF ne v] obtain d r' where
    hd: "list_string its = d # r'" "isdigit d"
    by blast
  have g: "good ?i" and u: "unread ?i = list_string its @ tail"
    by (simp_all add: good_def istream_of_def unread_def)
  from hd u have "unread ?i = d # (r' @ tail)"
    by simp
  from sentry_nonspace [OF g this] hd(2) have s: "sentry ?i = (True, ?i)"
    by (simp add: isdigit_not_special(1))
  from v mn have v': "list_all (valid_item (max_cpus ?new)) its"
    by simp
  from mx mn have mx': "max_cpus ?new \<le> INT_MAX"
    by simp
  from extract_loop_valid [OF ne v' mx' g u tl] obtain s' where
    s': "extract_loop ?new (- 1) ?i =
        (Inr s', ?i\<lparr>gpos := gpos ?i + length (list_string its), eofbit := (tail = [])\<rparr>)"
      "length s' = length ?new" "cpus s' = cpus ?new \<union> \<Union> (valid_cpus ` set its)"
    by blast
  from mx' have "max_cpus ?new \<le> 2147483647"
    by (simp add: INT_MAX_def)
  from parse_valid [OF v' this] obtain r where
    r: "parse ?new (list_string its) = Inr r" "length r = length ?new"
      "cpus r = \<Union> (valid_cpus ` set its)"
    by blast
  from s'(2,3) r(2,3) have "s' = r"
    by (intro cpus_inj) simp_all
  with s s'(1) r(1) show ?thesis
    by (simp add: extract_cpuset_def istream_of_def)
qed

lemma extract_cpuset_blank:
  assumes "list_all isspace ws"
  shows "extract_cpuset target (istream_of ws) =
     (Inr (CPUSet_new (length target)),
      \<lparr>buf = ws, gpos = length ws, eofbit = True, failbit = False\<rparr>)"
proof -
  from assms have "dropWhile isspace ws = []"
    by (simp add: list_all_iff)
  then have "unread (istream_of ws) = ws" "dropWhile isspace (unread (istream_of ws)) = []"
    by (simp_all add: unread_def istream_of_def del: dropWhile_eq_Nil_conv)
  then have "sentry (istream_of ws) =
      (False, \<lparr>buf = ws, gpos = length ws, eofbit = True, failbit = True\<rparr>)"
    by (simp add: sentry_def good_def istream_of_def del: dropWhile_eq_Nil_conv)
  then show ?thesis
    by (simp add: extract_cpuset_def)
qed

lemma extract_cpuset_failed:
  assumes "failbit (snd (extract_cpuset target i))" and "fst (extract_cpuset target i) = Inr r"
  shows "r = target"
  using assms
  by (auto simp: extract_cpuset_def split: prod.splits sum.splits bool.splits if_splits)

lemma extract_cpuset_open_range:
  assumes d: "decimal ds" and v: "dec_val ds < int (length target)"
    and mx: "int (length target) \<le> INT_MAX"
  shows "fst (extract_cpuset target (istream_of (ds @ ''-''))) = Inr target \<and>
     failbit (snd (extract_cpuset target (istream_of (ds @ ''-''))))"
proof -
  let ?new = "CPUSet_new (length target)"
  let ?i = "istream_of (ds @ ''-'')"
  have mn: "max_cpus ?new = int (length target)"
    by (simp add: max_cpus_def CPUSet_new_def)
  from d obtain c ds' where ds: "ds = c # ds'" "isdigit c"
    by (cases ds) (auto simp: decimal_def)
  have g: "good ?i" and u: "unread ?i = ds @ CHR ''-'' # []"
    by (simp_all add: good_def istream_of_def unread_def)
  from ds u have "unread ?i = c # (ds' @ ''-'')"
    by simp
  from sentry_nonspace [OF g this] ds(2) have s: "sentry ?i = (True, ?i)"
    by (simp add: isdigit_not_special(1))
  define i2 where "i2 = ?i\<lparr>gpos := gpos ?i + length ds + 1\<rparr>"
  from v mx mn have v': "dec_val ds < max_cpus ?new" and mx': "max_cpus ?new \<le> INT_MAX"
    by simp_all
  from extract_loop_hyphen [OF g u d v' mx']
  have h: "extract_loop ?new (- 1) ?i = extract_loop ?new (dec_val ds) i2"
    by (simp add: i2_def)
  have g2: "good i2" and u2: "unread i2 = []"
    by (simp_all add: i2_def good_def istream_of_def unread_def)
  from extract_int_eof [OF g2 u2] g2
  have "extract_loop ?new (dec_val ds) i2 = (Inr ?new, snd (extract_int i2))"
    by (simp add: extract_loop.simps [of ?new "dec_val ds" i2] Let_def)
  with h s extract_int_eof [OF g2 u2] show ?thesis
    by (simp add: extract_cpuset_def)
qed

subsection \<open>The setpoint of a policy\<close>






lemma exact_setpoint_undefined:
  assumes "2147483648 \<le> dval m e"
  shows "set_frequency_value p (Finite m e) = None"
proof -
  from assms have "2147483648 \<le> \<lfloor>dval m e\<rfloor>"
    by (simp add: le_floor_iff)
  with assms have "double_to_int (Finite m e) = None"
    by (simp add: trunc_def INT_MAX_def)
  with assms show ?thesis
    by (simp add: set_frequency_value_def)
qed




section \<open>Claims\<close>

text \<open>
  Claim C10. For the empty set (\<open>empty()\<close>, that is \<open>count() == 0\<close>) \<open>first()\<close> and
  \<open>last()\<close> both return \<open>-1\<close>. For a non-empty set \<open>first()\<close> returns the smallest CPU
  number in the set and \<open>last()\<close> the largest one, and both are below \<open>mMaxCPUs\<close>. Neither
  call trips an assertion.
\<close>

theorem first_last_spec:
  "(empty s \<longrightarrow> first s = Inr (- 1) \<and> last_cpu s = Inr (- 1)) \<and>
   (\<not> empty s \<longrightarrow>
      (\<exists>f l. first s = Inr f \<and> last_cpu s = Inr l \<and>
         f \<in> cpus s \<and> l \<in> cpus s \<and> (\<forall>j \<in> cpus s. f \<le> j \<and> j \<le> l) \<and>
         0 \<le> f \<and> l < max_cpus s))"
proof (intro conjI impI)
  assume "empty s"
  then have e: "cpus s = {}"
    by (simp add: empty_def count_zero_iff [symmetric])
  show "first s = Inr (- 1)"
    unfolding first_def by (rule first_loop_none) (simp_all add: e)
  show "last_cpu s = Inr (- 1)"
    unfolding last_cpu_def by (rule last_loop_none) (simp_all add: e)
next
  assume "\<not> empty s"
  then have ne: "cpus s \<noteq> {}"
    using count_zero_iff [of s] by (auto simp: empty_def)
  define f where "f = Min (cpus s)"
  define l where "l = Max (cpus s)"
  have fin: "f \<in> cpus s" and lin: "l \<in> cpus s"
    using ne finite_cpus [of s] by (simp_all add: f_def l_def)
  have fl: "\<forall>j \<in> cpus s. f \<le> j \<and> j \<le> l"
    using finite_cpus [of s] by (simp add: f_def l_def)
  from fin have f0: "0 \<le> f" by (simp add: cpus_def)
  from lin have lm: "l < max_cpus s" by (simp add: cpus_def)
  have "first_loop s 0 = Inr f"
    by (rule first_loop_least) (use fin f0 fl in auto)
  moreover have "last_loop s (max_cpus s - 1) = Inr l"
    by (rule last_loop_greatest) (use lin lm fl in \<open>auto simp: cpus_def\<close>)
  ultimately show "\<exists>f l. first s = Inr f \<and> last_cpu s = Inr l \<and>
         f \<in> cpus s \<and> l \<in> cpus s \<and> (\<forall>j \<in> cpus s. f \<le> j \<and> j \<le> l) \<and>
         0 \<le> f \<and> l < max_cpus s"
    using fin lin fl f0 lm by (auto simp: first_def last_cpu_def)
qed

theorem first_last_spec_witness:
  "empty (CPUSet_new 4) \<and> first (CPUSet_new 4) = Inr (- 1) \<and> last_cpu (CPUSet_new 4) = Inr (- 1) \<and>
   \<not> empty [False, True, True, False] \<and>
   (\<exists>f l. first [False, True, True, False] = Inr f \<and>
      last_cpu [False, True, True, False] = Inr l \<and>
      f \<in> cpus [False, True, True, False] \<and> l \<in> cpus [False, True, True, False] \<and>
      (\<forall>j \<in> cpus [False, True, True, False]. f \<le> j \<and> j \<le> l) \<and>
      0 \<le> f \<and> l < max_cpus [False, True, True, False])"
proof -
  have e: "empty (CPUSet_new 4)"
    by (simp add: empty_def count_def CPUSet_new_def)
  have ne: "\<not> empty [False, True, True, False]"
    by (simp add: empty_def count_def)
  from first_last_spec [of "CPUSet_new 4"] e
  have "first (CPUSet_new 4) = Inr (- 1) \<and> last_cpu (CPUSet_new 4) = Inr (- 1)"
    by blast
  moreover from first_last_spec [of "[False, True, True, False]"] ne
  have "\<exists>f l. first [False, True, True, False] = Inr f \<and>
      last_cpu [False, True, True, False] = Inr l \<and>
      f \<in> cpus [False, True, True, False] \<and> l \<in> cpus [False, True, True, False] \<and>
      (\<forall>j \<in> cpus [False, True, True, False]. f \<le> j \<and> j \<le> l) \<and>
      0 \<le> f \<and> l < max_cpus [False, True, True, False]"
    by blast
  ultimately show ?thesis
    using e ne by blast
qed

text \<open>
  Claim C7. Formatting a set with \<open>to_string\<close> and parsing the result with \<open>parse\<close> (into
  any set object of the same size) gives the set back: \<open>parse(format(m)) == m\<close>. The empty
  set is formatted as the empty string, and the empty string is parsed without error
  into the empty set. \<open>mMaxCPUs\<close> is an \<open>int\<close>, hence at most \<open>2147483647\<close>.
\<close>

theorem parse_to_string_roundtrip:
  "length this = length m \<Longrightarrow> max_cpus m \<le> 2147483647 \<Longrightarrow>
   (\<exists>str. to_string m = Inr str \<and> parse this str = Inr m) \<and>
   (empty m \<longrightarrow> to_string m = Inr []) \<and>
   parse this [] = Inr (zero this) \<and> empty (zero this)"
proof (intro conjI impI)
  assume "length this = length m" and "max_cpus m \<le> 2147483647"
  then show "\<exists>str. to_string m = Inr str \<and> parse this str = Inr m"
    by (rule parse_to_string)
next
  assume "empty m"
  then show "to_string m = Inr []"
    by (rule to_string_empty)
next
  show "parse this [] = Inr (zero this)"
    by (rule parse_empty)
next
  show "empty (zero this)"
    by (simp add: empty_def count_zero_iff)
qed

theorem parse_to_string_roundtrip_witness:
  "length (CPUSet_new 12) =
     length [True, True, True, False, True, False, True, True, False, True, False, False] \<and>
   max_cpus [True, True, True, False, True, False, True, True, False, True, False, False]
     \<le> 2147483647 \<and>
   to_string [True, True, True, False, True, False, True, True, False, True, False, False]
     = Inr ''0-2,4,6-7,9'' \<and>
   parse (CPUSet_new 12) ''0-2,4,6-7,9''
     = Inr [True, True, True, False, True, False, True, True, False, True, False, False] \<and>
   empty (CPUSet_new 12) \<and> to_string (CPUSet_new 12) = Inr [] \<and>
   parse (CPUSet_new 12) [] = Inr (zero (CPUSet_new 12))"
proof -
  let ?m = "[True, True, True, False, True, False, True, True, False, True, False, False]"
  have h1: "length (CPUSet_new 12) = length ?m"
    by (simp add: CPUSet_new_def)
  have h2: "max_cpus ?m \<le> 2147483647"
    by (simp add: max_cpus_def)
  have ts: "to_string ?m = Inr ''0-2,4,6-7,9''"
    by code_simp
  from parse_to_string_roundtrip [OF h1 h2] ts
  have p: "parse (CPUSet_new 12) ''0-2,4,6-7,9'' = Inr ?m"
    by auto
  have h3: "length (CPUSet_new 12) = length (CPUSet_new 12)"
    by simp
  have h4: "max_cpus (CPUSet_new 12) \<le> 2147483647"
    by (simp add: max_cpus_def CPUSet_new_def)
  have e: "empty (CPUSet_new 12)"
    by (simp add: empty_def count_def CPUSet_new_def)
  from parse_to_string_roundtrip [OF h3 h4] e
  have "to_string (CPUSet_new 12) = Inr []"
    and "parse (CPUSet_new 12) [] = Inr (zero (CPUSet_new 12))"
    by blast+
  with h1 h2 ts p e show ?thesis
    by blast
qed




text \<open>
  Claim C5. The reservation step of the constructor, when the system calls on the ledger
  and on the file of the effective CPUs succeed and both files hold a CPU list (\<open>E\<close> and
  \<open>A\<close>): it fails if and only if the requested set is not a subset of the effective set,
  and then leaves the filesystem as it was; otherwise it succeeds and the ledger
  afterwards holds exactly \<open>E \<union> requested\<close>, whether or not the requested CPUs overlap
  the ledger.
\<close>

theorem reserve_spec:
  "slice_io_ok w \<Longrightarrow> int (getMaxCPUs w) \<le> 2147483647 \<Longrightarrow> length s = getMaxCPUs w \<Longrightarrow>
   ledger w = Inr E \<Longrightarrow> effective w = Inr A \<Longrightarrow>
   ((\<exists>e. fst (reserve s w) = Inl e) \<longleftrightarrow> \<not> cpus s \<subseteq> cpus A) \<and>
   (\<not> cpus s \<subseteq> cpus A \<longrightarrow> reserve s w = (Inl Runtime_error, w)) \<and>
   (cpus s \<subseteq> cpus A \<longrightarrow>
      (\<exists>r str. cpu_or E s = Inr r \<and> to_string r = Inr str \<and>
         reserve s w = (Inr (), write_file cpuset_cpus_exclusive str w) \<and>
         ledger (snd (reserve s w)) = Inr r \<and> cpus r = cpus E \<union> cpus s))"
proof -
  assume io: "slice_io_ok w" and mx: "int (getMaxCPUs w) \<le> 2147483647"
    and ls: "length s = getMaxCPUs w" and le: "ledger w = Inr E" and la: "effective w = Inr A"
  note res = reserve_result [OF io ls le la]
  from ledger_length [OF le] ls have "length E = length s"
    by simp
  from cpu_or_spec [OF this] obtain r where
    r: "cpu_or E s = Inr r" "length r = length E" "cpus r = cpus E \<union> cpus s"
    by blast
  from to_string_total [of r] obtain str where str: "to_string r = Inr str" ..
  have ok: "reserve s w = (Inr (), write_file cpuset_cpus_exclusive str w)"
    if "cpus s \<subseteq> cpus A"
    using that res r(1) str by simp
  have lr: "length r = getMaxCPUs w"
    using r(2) ledger_length [OF le] by simp
  have "ledger w = Inr r" if "cpus r = {}"
  proof -
    from that r(3) have "cpus E = cpus r"
      by simp
    with r(2) have "E = r"
      by (intro cpus_inj) simp_all
    with le show ?thesis by simp
  qed
  from ledger_after_write [OF io mx lr str this]
  have led: "ledger (write_file cpuset_cpus_exclusive str w) = Inr r" .
  show ?thesis
  proof (intro conjI impI)
    show "(\<exists>e. fst (reserve s w) = Inl e) \<longleftrightarrow> \<not> cpus s \<subseteq> cpus A"
      using res ok by auto
  next
    assume "\<not> cpus s \<subseteq> cpus A"
    with res show "reserve s w = (Inl Runtime_error, w)"
      by simp
  next
    assume sub: "cpus s \<subseteq> cpus A"
    from ok [OF sub] led r(1,3) str
    show "\<exists>r str. cpu_or E s = Inr r \<and> to_string r = Inr str \<and>
         reserve s w = (Inr (), write_file cpuset_cpus_exclusive str w) \<and>
         ledger (snd (reserve s w)) = Inr r \<and> cpus r = cpus E \<union> cpus s"
      by auto
  qed
qed

theorem reserve_spec_witness:
  "slice_io_ok (slice_world 4 ''1'' ''0-3'' []) \<and>
   int (getMaxCPUs (slice_world 4 ''1'' ''0-3'' [])) \<le> 2147483647 \<and>
   length [False, True, True, False] = getMaxCPUs (slice_world 4 ''1'' ''0-3'' []) \<and>
   ledger (slice_world 4 ''1'' ''0-3'' []) = Inr [False, True, False, False] \<and>
   effective (slice_world 4 ''1'' ''0-3'' []) = Inr [True, True, True, True] \<and>
   cpus [False, True, True, False] \<subseteq> cpus [True, True, True, True] \<and>
   reserve [False, True, True, False] (slice_world 4 ''1'' ''0-3'' []) =
     (Inr (), write_file cpuset_cpus_exclusive ''1-2'' (slice_world 4 ''1'' ''0-3'' [])) \<and>
   ledger (snd (reserve [False, True, True, False] (slice_world 4 ''1'' ''0-3'' []))) =
     Inr [False, True, True, False] \<and>
   effective (slice_world 4 ''1'' ''0-1'' []) = Inr [True, True, False, False] \<and>
   \<not> cpus [False, True, True, False] \<subseteq> cpus [True, True, False, False] \<and>
   reserve [False, True, True, False] (slice_world 4 ''1'' ''0-1'' []) =
     (Inl Runtime_error, slice_world 4 ''1'' ''0-1'' [])"
proof -
  let ?w = "slice_world 4 ''1'' ''0-3'' []"
  let ?v = "slice_world 4 ''1'' ''0-1'' []"
  let ?s = "[False, True, True, False]"
  have io: "slice_io_ok ?w" and io': "slice_io_ok ?v"
    by (simp_all add: slice_io_ok_def slice_world_def)
  have mx: "int (getMaxCPUs ?w) \<le> 2147483647" and mx': "int (getMaxCPUs ?v) \<le> 2147483647"
    by (simp_all add: slice_world_def)
  have ls: "length ?s = getMaxCPUs ?w" and ls': "length ?s = getMaxCPUs ?v"
    by (simp_all add: slice_world_def)
  have le: "ledger ?w = Inr [False, True, False, False]"
    and le': "ledger ?v = Inr [False, True, False, False]"
    by code_simp+
  have la: "effective ?w = Inr [True, True, True, True]"
    and la': "effective ?v = Inr [True, True, False, False]"
    by code_simp+
  have sub: "cpus ?s \<subseteq> cpus [True, True, True, True]"
    by code_simp
  have nsub: "\<not> cpus ?s \<subseteq> cpus [True, True, False, False]"
    by code_simp
  have c1: "cpu_or [False, True, False, False] ?s = Inr ?s"
    by (simp add: cpu_or_def)
  have c2: "to_string ?s = Inr ''1-2''"
    by code_simp
  from reserve_spec [OF io mx ls le la] sub c1 c2
  have r1: "reserve ?s ?w = (Inr (), write_file cpuset_cpus_exclusive ''1-2'' ?w)"
    and r2: "ledger (snd (reserve ?s ?w)) = Inr ?s"
    by auto
  from reserve_spec [OF io' mx' ls' le' la'] nsub
  have r3: "reserve ?s ?v = (Inl Runtime_error, ?v)"
    by blast
  from io mx ls le la sub r1 r2 la' nsub r3 show ?thesis
    by blast
qed

text \<open>
  Claim C6, as stated, says that release always writes \<open>L \ m\<close> back as the new ledger.
  When the last reservation is released the difference is empty; its text is the empty
  string, nothing is written and the ledger keeps its old value. Here the ledger is
  \<open>0-3\<close>, the set \<open>0-3\<close> is released, \<open>(L ^ m) & L\<close> is empty, and the ledger still holds
  \<open>0-3\<close> afterwards.
\<close>

theorem release_last_counterexample:
  "ledger (slice_world 4 ''0-3'' ''0-3'' []) = Inr [True, True, True, True] \<and>
   cpu_xor [True, True, True, True] [True, True, True, True] = Inr [False, False, False, False] \<and>
   cpu_and [False, False, False, False] [True, True, True, True]
     = Inr [False, False, False, False] \<and>
   fst (release [True, True, True, True] (slice_world 4 ''0-3'' ''0-3'' [])) = Inr () \<and>
   ledger (snd (release [True, True, True, True] (slice_world 4 ''0-3'' ''0-3'' [])))
     = Inr [True, True, True, True]"
  by code_simp

text \<open>
  Claim C6, amended. For two sets \<open>L\<close> and \<open>m\<close> of the same size, \<open>(L ^ m) & L\<close> is the
  set difference \<open>L \ m\<close>. When the system calls on the ledger succeed and the ledger
  holds \<open>L\<close>, release writes the list form of this difference to the ledger, and the
  ledger then holds \<open>L \ m\<close>, provided the difference is not empty; when it is empty
  nothing is written and the filesystem stays as it was. The destructor of a group with
  the set \<open>m\<close> whose directory can be removed leaves exactly this filesystem, without the
  directory. Releasing \<open>2-3\<close> from the ledger \<open>0-7\<close> leaves \<open>0-1,4-7\<close>.
\<close>

theorem release_spec:
  "slice_io_ok w \<Longrightarrow> int (getMaxCPUs w) \<le> 2147483647 \<Longrightarrow> length m = getMaxCPUs w \<Longrightarrow>
   ledger w = Inr L \<Longrightarrow>
   (\<exists>x r str. cpu_xor L m = Inr x \<and> cpu_and x L = Inr r \<and> cpus r = cpus L - cpus m \<and>
      to_string r = Inr str \<and>
      release m w = (Inr (), write_file cpuset_cpus_exclusive str w) \<and>
      (cpus L - cpus m \<noteq> {} \<longrightarrow>
         files (snd (release m w)) cpuset_cpus_exclusive = str \<and>
         ledger (snd (release m w)) = Inr r) \<and>
      (cpus L - cpus m = {} \<longrightarrow> snd (release m w) = w) \<and>
      (mCPUSet g = m \<and> mPath g \<in> dirs w \<and> \<not> fails w (Rmdir (mPath g)) \<longrightarrow>
         CPUCGroup_delete g w =
           (Inr (), write_file cpuset_cpus_exclusive str (w\<lparr>dirs := dirs w - {mPath g}\<rparr>))))"
proof -
  assume io: "slice_io_ok w" and mx: "int (getMaxCPUs w) \<le> 2147483647"
    and lm: "length m = getMaxCPUs w" and le: "ledger w = Inr L"
  from ledger_length [OF le] lm have "length L = length m"
    by simp
  from xor_and_difference [OF this] obtain x r where
    xr: "cpu_xor L m = Inr x" "cpu_and x L = Inr r" "length r = length L"
      "cpus r = cpus L - cpus m"
    by blast
  from to_string_total [of r] obtain str where str: "to_string r = Inr str" ..
  have rel: "release m w = (Inr (), write_file cpuset_cpus_exclusive str w)"
    using release_result [OF io le, of m] xr(1,2) str by simp
  from mx xr(3) ledger_length [OF le] have "max_cpus r \<le> 2147483647"
    by (simp add: max_cpus_def)
  from to_string_roundtrip_word [OF this] str xr(3) ledger_length [OF le] have
    rt: "first_word str = str" "CPUSet_of_string (getMaxCPUs w) str = Inr r"
      "str = [] \<longleftrightarrow> cpus r = {}"
    by auto
  have nonempty: "files (snd (release m w)) cpuset_cpus_exclusive = str \<and>
      ledger (snd (release m w)) = Inr r" if "cpus L - cpus m \<noteq> {}"
  proof -
    from that xr(4) rt(3) have ne: "str \<noteq> []"
      by simp
    from io have "\<not> fails w (Read cpuset_cpus_exclusive)"
      by (simp add: slice_io_ok_def)
    from ledger_write_file [OF this ne rt(1)] rt(2) rel ne show ?thesis
      by (simp add: write_file_def)
  qed
  have empty: "snd (release m w) = w" if "cpus L - cpus m = {}"
    using that xr(4) rt(3) rel by (simp add: write_file_def)
  have del: "CPUCGroup_delete g w =
      (Inr (), write_file cpuset_cpus_exclusive str (w\<lparr>dirs := dirs w - {mPath g}\<rparr>))"
    if g: "mCPUSet g = m \<and> mPath g \<in> dirs w \<and> \<not> fails w (Rmdir (mPath g))"
  proof -
    let ?w1 = "w\<lparr>dirs := dirs w - {mPath g}\<rparr>"
    from g have rm: "remove (mPath g) w = Inr ?w1"
      by (simp add: remove_def rmdir_def)
    from io have io1: "slice_io_ok ?w1"
      by (simp add: slice_io_ok_def)
    have "ledger ?w1 = ledger w"
      by (simp add: ledger_def sysfs_read_def)
    with le have le1: "ledger ?w1 = Inr L"
      by simp
    have "release m ?w1 = (Inr (), write_file cpuset_cpus_exclusive str ?w1)"
      using release_result [OF io1 le1, of m] xr(1,2) str by simp
    with rm g show ?thesis
      by (simp add: CPUCGroup_delete_def)
  qed
  from xr(1,2,4) str rel nonempty empty del show ?thesis
    by blast
qed

theorem release_spec_witness:
  "slice_io_ok (slice_world 8 ''0-7'' ''0-7'' [''2-3'']) \<and>
   int (getMaxCPUs (slice_world 8 ''0-7'' ''0-7'' [''2-3''])) \<le> 2147483647 \<and>
   length [False, False, True, True, False, False, False, False]
     = getMaxCPUs (slice_world 8 ''0-7'' ''0-7'' [''2-3'']) \<and>
   ledger (slice_world 8 ''0-7'' ''0-7'' [''2-3''])
     = Inr [True, True, True, True, True, True, True, True] \<and>
   cpus [True, True, True, True, True, True, True, True]
     - cpus [False, False, True, True, False, False, False, False] \<noteq> {} \<and>
   release [False, False, True, True, False, False, False, False] (slice_world 8 ''0-7'' ''0-7'' [''2-3''])
     = (Inr (), write_file cpuset_cpus_exclusive ''0-1,4-7'' (slice_world 8 ''0-7'' ''0-7'' [''2-3''])) \<and>
   files (snd (release [False, False, True, True, False, False, False, False]
     (slice_world 8 ''0-7'' ''0-7'' [''2-3'']))) cpuset_cpus_exclusive = ''0-1,4-7'' \<and>
   ledger (snd (release [False, False, True, True, False, False, False, False]
     (slice_world 8 ''0-7'' ''0-7'' [''2-3''])))
     = Inr [True, True, False, False, True, True, True, True] \<and>
   CPUCGroup_delete
     \<lparr>mCPUSet = [False, False, True, True, False, False, False, False], mPath = RUNEXCL_SLICE @ ''/runexcl.2-3''\<rparr>
     (slice_world 8 ''0-7'' ''0-7'' [''2-3''])
     = (Inr (), write_file cpuset_cpus_exclusive ''0-1,4-7''
         ((slice_world 8 ''0-7'' ''0-7'' [''2-3''])
            \<lparr>dirs := dirs (slice_world 8 ''0-7'' ''0-7'' [''2-3'']) - {RUNEXCL_SLICE @ ''/runexcl.2-3''}\<rparr>))"
proof -
  let ?w = "slice_world 8 ''0-7'' ''0-7'' [''2-3'']"
  let ?m = "[False, False, True, True, False, False, False, False]"
  let ?L = "[True, True, True, True, True, True, True, True]"
  let ?r = "[True, True, False, False, True, True, True, True]"
  let ?g = "\<lparr>mCPUSet = ?m, mPath = RUNEXCL_SLICE @ ''/runexcl.2-3''\<rparr>"
  have io: "slice_io_ok ?w"
    by (simp add: slice_io_ok_def slice_world_def)
  have mx: "int (getMaxCPUs ?w) \<le> 2147483647"
    by (simp add: slice_world_def)
  have lm: "length ?m = getMaxCPUs ?w"
    by (simp add: slice_world_def)
  have le: "ledger ?w = Inr ?L"
    by code_simp
  have ne: "cpus ?L - cpus ?m \<noteq> {}"
    by code_simp
  have g: "mCPUSet ?g = ?m \<and> mPath ?g \<in> dirs ?w \<and> \<not> fails ?w (Rmdir (mPath ?g))"
    by (simp add: slice_world_def)
  have c1: "cpu_xor ?L ?m = Inr [True, True, False, False, True, True, True, True]"
    by (simp add: cpu_xor_def)
  have c2: "cpu_and [True, True, False, False, True, True, True, True] ?L = Inr ?r"
    by (simp add: cpu_and_def)
  have c3: "to_string ?r = Inr ''0-1,4-7''"
    by code_simp
  from release_spec [OF io mx lm le, of ?g] obtain x r str where
    a: "cpu_xor ?L ?m = Inr x" "cpu_and x ?L = Inr r" "to_string r = Inr str"
      "release ?m ?w = (Inr (), write_file cpuset_cpus_exclusive str ?w)"
      "cpus ?L - cpus ?m \<noteq> {} \<longrightarrow>
         files (snd (release ?m ?w)) cpuset_cpus_exclusive = str \<and>
         ledger (snd (release ?m ?w)) = Inr r"
      "mCPUSet ?g = ?m \<and> mPath ?g \<in> dirs ?w \<and> \<not> fails ?w (Rmdir (mPath ?g)) \<longrightarrow>
         CPUCGroup_delete ?g ?w =
           (Inr (), write_file cpuset_cpus_exclusive str (?w\<lparr>dirs := dirs ?w - {mPath ?g}\<rparr>))"
    by blast
  from a(1) c1 have x: "x = [True, True, False, False, True, True, True, True]"
    by simp
  from a(2) c2 x have r: "r = ?r"
    by simp
  from a(3) c3 r have str: "str = ''0-1,4-7''"
    by simp
  from a(4,5) ne r str
  have "release ?m ?w = (Inr (), write_file cpuset_cpus_exclusive ''0-1,4-7'' ?w)"
    and "files (snd (release ?m ?w)) cpuset_cpus_exclusive = ''0-1,4-7''"
    and "ledger (snd (release ?m ?w)) = Inr ?r"
    by simp_all
  moreover from a(6) g str
  have "CPUCGroup_delete ?g ?w =
      (Inr (), write_file cpuset_cpus_exclusive ''0-1,4-7''
         (?w\<lparr>dirs := dirs ?w - {RUNEXCL_SLICE @ ''/runexcl.2-3''}\<rparr>))"
    by simp
  ultimately show ?thesis
    using io mx lm le ne by blast
qed


text \<open>
  Claim C9, as stated, covers every valid mask as the prefix, also the empty one (the
  empty string is the empty mask). The input \<open>x\<close> is the empty mask followed by a
  character outside of the grammar: the list form of the prefix is the empty set, but
  the stream parser fails and leaves its target as it was. In the input of a line feed
  and \<open>5\<close> the line feed is skipped and CPU 5 is read.
\<close>

theorem extract_cpuset_empty_prefix_counterexample:
  "parse (CPUSet_new 8) [] = Inr [False, False, False, False, False, False, False, False] \<and>
   \<not> isdigit CHR ''x'' \<and>
   extract_cpuset [True, False, False, False, False, False, False, False] (istream_of ''x'') =
     (Inr [True, False, False, False, False, False, False, False],
      \<lparr>buf = ''x'', gpos = 0, eofbit = False, failbit = True\<rparr>) \<and>
   \<not> isdigit CHR 0x0A \<and>
   extract_cpuset [True, False, False, False, False, False, False, False]
       (istream_of [CHR 0x0A, CHR ''5'']) =
     (Inr [False, False, False, False, False, True, False, False],
      \<lparr>buf = [CHR 0x0A, CHR ''5''], gpos = 2, eofbit = True, failbit = False\<rparr>)"
  by code_simp

text \<open>
  Claim C9, amended. On an input that starts with a non-empty valid list followed by a
  character outside of the grammar (no digit, comma or hyphen), the stream parser stores
  the set that \<open>parse\<close> gives for the list and leaves the stream, not failed, at that
  character; at the end of the input after the list it stores the same set. Whenever
  the stream has failed afterwards the target is what it was before, for instance on a
  number followed by a hyphen and the end of the input (as in \<open>0-\<close>). Empty input, or
  input of white space only, stores the empty set and does not fail.
\<close>

theorem extract_cpuset_spec:
  "(its \<noteq> [] \<and> list_all (valid_item (int (length target))) its \<and>
      int (length target) \<le> INT_MAX \<and> \<not> isdigit c \<and> c \<noteq> CHR ''-'' \<and> c \<noteq> CHR '','' \<longrightarrow>
      (\<exists>r. parse (CPUSet_new (length target)) (list_string its) = Inr r \<and>
         extract_cpuset target (istream_of (list_string its @ c # rest)) =
           (Inr r, \<lparr>buf = list_string its @ c # rest, gpos = length (list_string its),
              eofbit = False, failbit = False\<rparr>) \<and>
         extract_cpuset target (istream_of (list_string its)) =
           (Inr r, \<lparr>buf = list_string its, gpos = length (list_string its),
              eofbit = True, failbit = False\<rparr>))) \<and>
   (failbit (snd (extract_cpuset target i)) \<and> fst (extract_cpuset target i) = Inr r' \<longrightarrow>
      r' = target) \<and>
   (decimal ds \<and> dec_val ds < int (length target) \<and> int (length target) \<le> INT_MAX \<longrightarrow>
      fst (extract_cpuset target (istream_of (ds @ ''-''))) = Inr target \<and>
      failbit (snd (extract_cpuset target (istream_of (ds @ ''-''))))) \<and>
   (list_all isspace ws \<longrightarrow>
      extract_cpuset target (istream_of ws) =
        (Inr (CPUSet_new (length target)),
         \<lparr>buf = ws, gpos = length ws, eofbit = True, failbit = False\<rparr>))"
proof (intro conjI impI)
  assume a: "its \<noteq> [] \<and> list_all (valid_item (int (length target))) its \<and>
      int (length target) \<le> INT_MAX \<and> \<not> isdigit c \<and> c \<noteq> CHR ''-'' \<and> c \<noteq> CHR '',''"
  then have t1: "c # rest = [] \<or>
      (\<not> isdigit (hd (c # rest)) \<and> hd (c # rest) \<noteq> CHR ''-'' \<and> hd (c # rest) \<noteq> CHR '','')"
    by simp
  from a extract_cpuset_valid [of its target "c # rest", OF _ _ _ t1] obtain r where
    r: "parse (CPUSet_new (length target)) (list_string its) = Inr r"
      "extract_cpuset target (istream_of (list_string its @ c # rest)) =
       (Inr r, \<lparr>buf = list_string its @ c # rest, gpos = length (list_string its),
          eofbit = False, failbit = False\<rparr>)"
    by auto
  from a extract_cpuset_valid [of its target "[]"] r(1)
  have "extract_cpuset target (istream_of (list_string its)) =
       (Inr r, \<lparr>buf = list_string its, gpos = length (list_string its),
          eofbit = True, failbit = False\<rparr>)"
    by auto
  with r show "\<exists>r. parse (CPUSet_new (length target)) (list_string its) = Inr r \<and>
         extract_cpuset target (istream_of (list_string its @ c # rest)) =
           (Inr r, \<lparr>buf = list_string its @ c # rest, gpos = length (list_string its),
              eofbit = False, failbit = False\<rparr>) \<and>
         extract_cpuset target (istream_of (list_string its)) =
           (Inr r, \<lparr>buf = list_string its, gpos = length (list_string its),
              eofbit = True, failbit = False\<rparr>)"
    by blast
next
  assume "failbit (snd (extract_cpuset target i)) \<and> fst (extract_cpuset target i) = Inr r'"
  then show "r' = target"
    using extract_cpuset_failed [of target i r'] by blast
next
  assume a: "decimal ds \<and> dec_val ds < int (length target) \<and> int (length target) \<le> INT_MAX"
  with extract_cpuset_open_range [of ds target]
  show "fst (extract_cpuset target (istream_of (ds @ ''-''))) = Inr target"
    and "failbit (snd (extract_cpuset target (istream_of (ds @ ''-''))))"
    by blast+
next
  assume "list_all isspace ws"
  then show "extract_cpuset target (istream_of ws) =
        (Inr (CPUSet_new (length target)),
         \<lparr>buf = ws, gpos = length ws, eofbit = True, failbit = False\<rparr>)"
    by (rule extract_cpuset_blank)
qed

theorem extract_cpuset_spec_witness:
  "list_all (valid_item (int (length (CPUSet_new 12))))
     [Range ''0'' ''2'', Single ''4'', Range ''6'' ''7'', Single ''9''] \<and>
   int (length (CPUSet_new 12)) \<le> INT_MAX \<and> \<not> isdigit CHR 0x0A \<and>
   parse (CPUSet_new 12) ''0-2,4,6-7,9'' =
     Inr [True, True, True, False, True, False, True, True, False, True, False, False] \<and>
   extract_cpuset (CPUSet_new 12) (istream_of (''0-2,4,6-7,9'' @ CHR 0x0A # ''Garbage'')) =
     (Inr [True, True, True, False, True, False, True, True, False, True, False, False],
      \<lparr>buf = ''0-2,4,6-7,9'' @ CHR 0x0A # ''Garbage'', gpos = 11, eofbit = False,
         failbit = False\<rparr>) \<and>
   decimal ''0'' \<and> dec_val ''0'' < int (length (CPUSet_new 12)) \<and>
   fst (extract_cpuset (CPUSet_new 12) (istream_of ''0-'')) = Inr (CPUSet_new 12) \<and>
   failbit (snd (extract_cpuset (CPUSet_new 12) (istream_of ''0-''))) \<and>
   list_all isspace [CHR 0x0A] \<and>
   extract_cpuset [True, True, False, False] (istream_of [CHR 0x0A]) =
     (Inr (CPUSet_new 4), \<lparr>buf = [CHR 0x0A], gpos = 1, eofbit = True, failbit = False\<rparr>)"
proof -
  let ?t = "CPUSet_new 12"
  let ?its = "[Range ''0'' ''2'', Single ''4'', Range ''6'' ''7'', Single ''9'']"
  let ?m = "[True, True, True, False, True, False, True, True, False, True, False, False]"
  have v: "list_all (valid_item (int (length ?t))) ?its"
    by code_simp
  have mx: "int (length ?t) \<le> INT_MAX"
    by (simp add: CPUSet_new_def INT_MAX_def)
  have c: "\<not> isdigit CHR 0x0A" "CHR 0x0A \<noteq> CHR ''-''" "CHR 0x0A \<noteq> CHR '',''"
    by (simp_all add: isdigit_def)
  have ls: "list_string ?its = ''0-2,4,6-7,9''"
    by simp
  have p: "parse ?t ''0-2,4,6-7,9'' = Inr ?m"
    by code_simp
  have ne: "?its \<noteq> []"
    by simp
  from extract_cpuset_spec [where its = ?its and target = ?t and c = "CHR 0x0A"
      and rest = "''Garbage''"] ne v mx c
  obtain r where r: "parse (CPUSet_new (length ?t)) (list_string ?its) = Inr r"
    "extract_cpuset ?t (istream_of (list_string ?its @ CHR 0x0A # ''Garbage'')) =
       (Inr r, \<lparr>buf = list_string ?its @ CHR 0x0A # ''Garbage'',
          gpos = length (list_string ?its), eofbit = False, failbit = False\<rparr>)"
    by blast
  have "CPUSet_new (length ?t) = ?t"
    by (simp add: CPUSet_new_def)
  with r(1) p ls have "r = ?m"
    by simp
  with r(2) ls have w1: "extract_cpuset ?t (istream_of (''0-2,4,6-7,9'' @ CHR 0x0A # ''Garbage'')) =
     (Inr ?m, \<lparr>buf = ''0-2,4,6-7,9'' @ CHR 0x0A # ''Garbage'', gpos = 11, eofbit = False,
         failbit = False\<rparr>)"
    by simp
  have d: "decimal ''0''" "dec_val ''0'' < int (length ?t)"
    by code_simp+
  from extract_cpuset_spec [where target = ?t and ds = "''0''"] d mx
  have w2: "fst (extract_cpuset ?t (istream_of ''0-'')) = Inr ?t"
    "failbit (snd (extract_cpuset ?t (istream_of ''0-'')))"
    by simp_all
  have sp: "list_all isspace [CHR 0x0A]"
    by (simp add: isspace_def)
  from extract_cpuset_spec [where target = "[True, True, False, False]" and ws = "[CHR 0x0A]"] sp
  have w3: "extract_cpuset [True, True, False, False] (istream_of [CHR 0x0A]) =
     (Inr (CPUSet_new 4), \<lparr>buf = [CHR 0x0A], gpos = 1, eofbit = True, failbit = False\<rparr>)"
    by (simp add: CPUSet_new_def eval_nat_numeral)
  from v mx c(1) p w1 d w2 sp w3 show ?thesis
    by blast
qed





text \<open>
  Claim C3 asks that on teardown every policy record writes its saved \<open>scaling_setspeed\<close>
  and \<open>scaling_governor\<close> back, and that the AMD driver disposes of every policy record
  before it writes the saved status. The destructor of the AMD driver calls
  \<open>mPolicies.clear()\<close> on a vector of pointers: the pointers are dropped and no policy is
  destroyed; the destructor of the base class then finds the vector empty. The AMD
  driver is the only one \<open>create()\<close> makes. So the destructor of an AMD driver leaves the
  heap as it is and writes nothing but the status.

  On the machine \<open>amd_world\<close> the frequency 0.5 is requested for the CPUs 0 and 1 and the
  controller is then destroyed. Both policies had saved their values (\<open>schedutil\<close>;
  \<open>ondemand\<close> and 2000000); after the teardown both objects are still on the heap, the
  only write of the teardown is \<open>active\<close> to \<open>amd_pstate/status\<close>, and the files still show
  \<open>userspace\<close> and 1500000.
\<close>

theorem amd_teardown_restores_no_policy:
  "CPUAMDPStatePerformanceDriver_delete d h w =
     (case sysfs_write PATH_AMD_PSTATE (mStatus d) w of
        Inl e \<Rightarrow> (Inl e, h, w)
      | Inr w1 \<Rightarrow> (Inr (), h, w1)) \<and>
   (case CPUGovernor_set_frequency CPUGovernor_new [True, True, False, False] (Finite 1 (- 1)) []
       amd_world of
      (Inl e, h1, w1) \<Rightarrow> False
    | (Inr g, h1, w1) \<Rightarrow>
        mImpl g = Some (AMD_driver \<lparr>mPolicies = [0, 1], mStatus = ''active''\<rparr>) \<and>
        map (map_option (\<lambda>obj. case obj of
               Base_policy p \<Rightarrow> (mPolicyPath p, mScalingGovernor p, mScalingSetSpeed p)
             | AMD_policy p \<Rightarrow> (mPolicyPath p, mScalingGovernor p, mScalingSetSpeed p))) h1 =
          [Some (CPUFREQ_ROOT @ ''/policy0'', ''schedutil'', ''<unsupported>''),
           Some (CPUFREQ_ROOT @ ''/policy1'', ''ondemand'', ''2000000'')] \<and>
        (case CPUGovernor_delete g h1 w1 of
           (r, h2, w2) \<Rightarrow>
             r = Inr () \<and> h2 = h1 \<and>
             written w2 = written w1 @ [(PATH_AMD_PSTATE, ''active'')] \<and>
             files w2 (CPUFREQ_ROOT @ ''/policy0/scaling_governor'') = ''userspace'' \<and>
             files w2 (CPUFREQ_ROOT @ ''/policy1/scaling_governor'') = ''userspace'' \<and>
             files w2 (CPUFREQ_ROOT @ ''/policy1/scaling_setspeed'') = ''1500000''))"
proof
  show "CPUAMDPStatePerformanceDriver_delete d h w =
     (case sysfs_write PATH_AMD_PSTATE (mStatus d) w of
        Inl e \<Rightarrow> (Inl e, h, w)
      | Inr w1 \<Rightarrow> (Inr (), h, w1))"
    by (simp add: CPUAMDPStatePerformanceDriver_delete_def CPUPerformanceDriver_delete_def
        split: sum.splits)
next
  show "case CPUGovernor_set_frequency CPUGovernor_new [True, True, False, False] (Finite 1 (- 1)) []
       amd_world of
      (Inl e, h1, w1) \<Rightarrow> False
    | (Inr g, h1, w1) \<Rightarrow>
        mImpl g = Some (AMD_driver \<lparr>mPolicies = [0, 1], mStatus = ''active''\<rparr>) \<and>
        map (map_option (\<lambda>obj. case obj of
               Base_policy p \<Rightarrow> (mPolicyPath p, mScalingGovernor p, mScalingSetSpeed p)
             | AMD_policy p \<Rightarrow> (mPolicyPath p, mScalingGovernor p, mScalingSetSpeed p))) h1 =
          [Some (CPUFREQ_ROOT @ ''/policy0'', ''schedutil'', ''<unsupported>''),
           Some (CPUFREQ_ROOT @ ''/policy1'', ''ondemand'', ''2000000'')] \<and>
        (case CPUGovernor_delete g h1 w1 of
           (r, h2, w2) \<Rightarrow>
             r = Inr () \<and> h2 = h1 \<and>
             written w2 = written w1 @ [(PATH_AMD_PSTATE, ''active'')] \<and>
             files w2 (CPUFREQ_ROOT @ ''/policy0/scaling_governor'') = ''userspace'' \<and>
             files w2 (CPUFREQ_ROOT @ ''/policy1/scaling_governor'') = ''userspace'' \<and>
             files w2 (CPUFREQ_ROOT @ ''/policy1/scaling_setspeed'') = ''1500000'')"
    by code_simp
qed


end
